theory Spec2Isabelle
  imports Main
begin

section \<open>The component tree mirror of the devtools front end\<close>

text \<open>
  This theory embeds \<^verbatim>\<open>packages/app-frontend/src/features/components/index.js\<close>.
  The module keeps its state in module-level variables; here they are the fields of
  one record that every function takes and returns.

  Tree nodes are JavaScript objects that the module mutates in place
  (\<^verbatim>\<open>Vue.set(component, key, data[key])\<close>) while several holders keep references to
  them (\<^verbatim>\<open>rootInstances\<close>, \<^verbatim>\<open>componentsMap\<close>, the \<^verbatim>\<open>children\<close> array of the
  parent). Such shared objects live in an explicit store: \<open>heap\<close> is the list of all
  objects that were ever linked into the mirror and an address is an index into it.
  Arrays are never mutated in place by this module, so an array of nodes is the list of
  the addresses of its elements.

  An object that \<^verbatim>\<open>parse\<close> has just created is referenced by nothing but the incoming
  array until the handler links it into the mirror. Up to that moment it is modelled by
  its value: a \<open>json\<close> tree as parsed, a \<open>data\<close> tree once
  \<^verbatim>\<open>restoreChildrenFromComponentsMap\<close> may have replaced some \<^verbatim>\<open>children\<close> field by
  the array of a stored node. It receives its address when the source first stores a
  reference to it.
\<close>

subsection \<open>Data\<close>

type_synonym addr = nat

text \<open>A node object: \<^verbatim>\<open>id\<close>, \<^verbatim>\<open>hasChildren\<close>, \<^verbatim>\<open>children\<close>, and the remaining keys,
  which the module only copies.\<close>

record node =
  node_id :: string
  hasChildren :: bool
  children :: "addr list"
  meta :: "string \<rightharpoonup> string"

text \<open>A node as \<^verbatim>\<open>parse\<close> delivers it. As in the data model of the specification,
  every node carries an id, the flag \<^verbatim>\<open>hasChildren\<close> and an array of children.\<close>

datatype json =
  JNode (jid: string) (jhasChildren: bool) (jchildren: "json list") (jmeta: "string \<rightharpoonup> string")

text \<open>An incoming node while the handler works on it: its \<^verbatim>\<open>children\<close> field is
  either the array that was parsed or, after \<^verbatim>\<open>data.children = instance.children\<close>, the
  array of a stored node.\<close>

datatype data =
  Data (data_id: string) (data_hasChildren: bool) (data_children: kids) (data_meta: "string \<rightharpoonup> string")
and kids =
  Parsed "data list"
| Stored "addr list"

text \<open>What \<^verbatim>\<open>parse\<close> returns: an array of nodes, or some other object (the detail
  payload of a component is one). Primitive values are left out.\<close>

datatype val = Array "json list" | Object string

datatype error = TypeError | RangeError | DataFormatError

datatype command =
  TreeFetch string string
| DetailFetch string

record state =
  heap :: "node list"
  rootInstances :: "addr list"
  componentsMap :: "string \<rightharpoonup> addr"
  componentsParent :: "string \<rightharpoonup> string"
  treeFilter :: string
  selectedComponentId :: "string option"
  selectedComponentData :: "val option"
  selectedComponentPendingId :: "string option"
  lastSelectedComponentId :: "string option"
  expandedMap :: "string \<rightharpoonup> bool"
  resetComponentsQueued :: bool
  sent :: "command list"
  errors :: "string list"

text \<open>\<open>sent\<close> collects what the module hands to \<^verbatim>\<open>bridge.send\<close>
  (\<open>TreeFetch instanceId filter\<close> for \<^verbatim>\<open>TO_BACK_COMPONENT_TREE\<close>, \<open>DetailFetch id\<close> for
  \<^verbatim>\<open>TO_BACK_COMPONENT_SELECTED_DATA\<close>), \<open>errors\<close> what it hands to \<^verbatim>\<open>putError\<close>.\<close>

definition init :: state where
  "init = \<lparr>heap = [], rootInstances = [], componentsMap = Map.empty,
     componentsParent = Map.empty, treeFilter = [], selectedComponentId = None,
     selectedComponentData = None, selectedComponentPendingId = None,
     lastSelectedComponentId = None, expandedMap = Map.empty,
     resetComponentsQueued = False, sent = [], errors = []\<rparr>"

subsection \<open>JavaScript helpers\<close>

text \<open>\<^verbatim>\<open>s.endsWith(suf)\<close>.\<close>

definition endsWith :: "string \<Rightarrow> string \<Rightarrow> bool" where
  "endsWith s suf = (length suf \<le> length s \<and> drop (length s - length suf) s = suf)"

text \<open>\<^verbatim>\<open>!x\<close> for a value that is a string, \<^verbatim>\<open>null\<close> or \<^verbatim>\<open>undefined\<close>.\<close>

definition falsy :: "string option \<Rightarrow> bool" where
  "falsy x = (case x of None \<Rightarrow> True | Some v \<Rightarrow> v = [])"

text \<open>\<^verbatim>\<open>xs.forEach(f)\<close> and \<^verbatim>\<open>for (const x of xs) f(x)\<close>, where \<open>f\<close> may throw: the
  loop stops at the first exception, and the state is the one reached by then.\<close>

fun forEach :: "('a \<Rightarrow> state \<Rightarrow> error option \<times> state) \<Rightarrow> 'a list \<Rightarrow> state \<Rightarrow> error option \<times> state" where
  "forEach f [] s = (None, s)"
| "forEach f (x # xs) s =
     (case f x s of
        (None, s') \<Rightarrow> forEach f xs s'
      | (Some e, s') \<Rightarrow> (Some e, s'))"

subsection \<open>Allocation\<close>

fun ofJson :: "json \<Rightarrow> data" where
  "ofJson (JNode i h cs m) = Data i h (Parsed (map ofJson cs)) m"

text \<open>Linking a node into the mirror gives it, and every parsed node below it, an
  address; an array taken over from a stored node keeps its elements.\<close>

fun alloc :: "data \<Rightarrow> node list \<Rightarrow> addr \<times> node list"
  and allocKids :: "kids \<Rightarrow> node list \<Rightarrow> addr list \<times> node list"
  and allocList :: "data list \<Rightarrow> node list \<Rightarrow> addr list \<times> node list" where
  "alloc (Data i h ks m) hp =
     (case allocKids ks hp of
        (as, hp') \<Rightarrow>
          (length hp', hp' @ [\<lparr>node_id = i, hasChildren = h, children = as, meta = m\<rparr>]))"
| "allocKids (Parsed ds) hp = allocList ds hp"
| "allocKids (Stored as) hp = (as, hp)"
| "allocList [] hp = ([], hp)"
| "allocList (d # ds) hp =
     (case alloc d hp of
        (a, hp1) \<Rightarrow> (case allocList ds hp1 of (as, hp2) \<Rightarrow> (a # as, hp2)))"

subsection \<open>The module's functions\<close>

definition setComponentOpen :: "string \<Rightarrow> bool \<Rightarrow> state \<Rightarrow> state" where
  "setComponentOpen i isOpen s = s\<lparr>expandedMap := (expandedMap s)(i \<mapsto> isOpen)\<rparr>"

definition resetComponents :: "state \<Rightarrow> state" where
  "resetComponents s =
     s\<lparr>resetComponentsQueued := False, rootInstances := [],
       componentsMap := Map.empty, componentsParent := Map.empty\<rparr>"

definition requestComponentTree :: "string option \<Rightarrow> state \<Rightarrow> state" where
  "requestComponentTree instanceId s =
     (let i = (if falsy instanceId then ''_root'' else the instanceId);
          s1 = (if i = ''_root'' then s\<lparr>resetComponentsQueued := True\<rparr> else s)
      in s1\<lparr>sent := sent s1 @ [TreeFetch i (treeFilter s1)]\<rparr>)"

text \<open>In \<^verbatim>\<open>loadComponent\<close> the source writes \<^verbatim>\<open>bridge.send\<close> with \<^verbatim>\<open>bridge\<close> a free identifier
  of the module; it is read as the bridge that \<^verbatim>\<open>getBridge()\<close> returns elsewhere in the
  file.\<close>

definition loadComponent :: "string option \<Rightarrow> state \<Rightarrow> state" where
  "loadComponent i s =
     (if falsy i \<or> selectedComponentPendingId s = i then s
      else s\<lparr>lastSelectedComponentId := i, selectedComponentPendingId := i,
             sent := sent s @ [DetailFetch (the i)]\<rparr>)"

text \<open>\<^verbatim>\<open>isExpanded\<close> of \<^verbatim>\<open>useComponent\<close>: \<^verbatim>\<open>!!expandedMap.value[instance.value.id]\<close>.\<close>

definition isExpanded :: "state \<Rightarrow> string \<Rightarrow> bool" where
  "isExpanded s i = (expandedMap s i = Some True)"

text \<open>\<^verbatim>\<open>toggleExpand\<close> of \<^verbatim>\<open>useComponent(instance)\<close>; \<open>instance\<close> is the node the
  composable was created for.\<close>

definition toggleExpand :: "node \<Rightarrow> bool \<Rightarrow> state \<Rightarrow> state" where
  "toggleExpand instance load s =
     (if \<not> hasChildren instance then s
      else
        let s1 = setComponentOpen (node_id instance) (\<not> isExpanded s (node_id instance)) s
        in if load then requestComponentTree (Some (node_id instance)) s1 else s1)"

fun restoreChildrenFromComponentsMap :: "state \<Rightarrow> json \<Rightarrow> data" where
  "restoreChildrenFromComponentsMap s (JNode i h cs m) =
     (case componentsMap s i of
        None \<Rightarrow> ofJson (JNode i h cs m)
      | Some instance \<Rightarrow>
          if h then
            if cs = [] \<and> children (heap s ! instance) \<noteq> []
            then Data i h (Stored (children (heap s ! instance))) m
            else Data i h (Parsed (map (restoreChildrenFromComponentsMap s) cs)) m
          else ofJson (JNode i h cs m))"

text \<open>\<^verbatim>\<open>updateComponentsMapData\<close> copies every key of \<open>data\<close> onto the stored object and
  returns that object. When the table has no entry for \<^verbatim>\<open>data.id\<close> the object is
  \<^verbatim>\<open>undefined\<close>: writing a key onto it raises, and so would the
  \<^verbatim>\<open>instance.id\<close> of \<^verbatim>\<open>addToComponentsMap\<close> right after.\<close>

definition updateComponentsMapData :: "data \<Rightarrow> state \<Rightarrow> (error + addr) \<times> state" where
  "updateComponentsMapData d s =
     (case componentsMap s (data_id d) of
        None \<Rightarrow> (Inl TypeError, s)
      | Some component \<Rightarrow>
          (case allocKids (data_children d) (heap s) of
             (as, hp) \<Rightarrow>
               (Inr component,
                s\<lparr>heap := hp[component :=
                     \<lparr>node_id = data_id d, hasChildren = data_hasChildren d, children = as,
                      meta = meta (heap s ! component) ++ data_meta d\<rparr>]\<rparr>)))"

text \<open>\<^verbatim>\<open>addToComponentsMap\<close> walks stored objects, whose \<^verbatim>\<open>children\<close> links the module
  itself rewires, so the recursion is bounded by the depth of the call stack: the first
  argument is the number of frames left, and running out of them is the engine's
  \<^verbatim>\<open>RangeError\<close>.\<close>

fun addToComponentsMap :: "nat \<Rightarrow> addr \<Rightarrow> state \<Rightarrow> error option \<times> state" where
  "addToComponentsMap 0 instance s = (Some RangeError, s)"
| "addToComponentsMap (Suc stack) instance s =
     forEach
       (\<lambda>c s'. addToComponentsMap stack c
          (s'\<lparr>componentsParent :=
             (componentsParent s')(node_id (heap s' ! c) \<mapsto> node_id (heap s' ! instance))\<rparr>))
       (children (heap s ! instance))
       (s\<lparr>componentsMap := (componentsMap s)(node_id (heap s ! instance) \<mapsto> instance)\<rparr>)"

subsection \<open>The bridge handlers\<close>

text \<open>One turn of the loop \<^verbatim>\<open>for (const item of data)\<close> of the tree handler.\<close>

definition mergeItem :: "nat \<Rightarrow> json \<Rightarrow> state \<Rightarrow> error option \<times> state" where
  "mergeItem stack item s =
     (case updateComponentsMapData (restoreChildrenFromComponentsMap s item) s of
        (Inl e, s') \<Rightarrow> (Some e, s')
      | (Inr component, s') \<Rightarrow> addToComponentsMap stack component s')"

text \<open>The handler of \<^verbatim>\<open>TO_FRONT_COMPONENT_TREE\<close>. \<open>parse\<close> is the deserializer of the
  shared utilities (\<open>None\<close>: it throws, which the specification calls a
  \<open>DataFormatError\<close>); \<open>stack\<close> is the call depth available. The source has no
  \<^verbatim>\<open>try\<close>: an exception ends the handler and leaves the module state as it is at that
  moment. A parsed value that is not an array cannot be iterated by \<^verbatim>\<open>for ... of\<close>
  (\<open>TypeError\<close>) and fails the test \<^verbatim>\<open>Array.isArray\<close>.\<close>

definition handleComponentTree ::
  "(string \<Rightarrow> val option) \<Rightarrow> nat \<Rightarrow> string \<Rightarrow> string option \<Rightarrow> bool \<Rightarrow> state \<Rightarrow> error option \<times> state" where
  "handleComponentTree parse stack instanceId treeData notFound s =
     (let isRoot = endsWith instanceId ''root'';
          s1 = (if resetComponentsQueued s then resetComponents s else s)
      in if falsy treeData then
           (None, if isRoot \<and> \<not> notFound
                  then s1\<lparr>errors := errors s1 @ [''Component tree not supported'']\<rparr>
                  else s1)
         else
           (case parse (the treeData) of
              None \<Rightarrow> (Some DataFormatError, s1)
            | Some dat \<Rightarrow>
                (case
                   (case componentsMap s1 instanceId of
                      Some instance \<Rightarrow>
                        (case dat of
                           Array items \<Rightarrow> forEach (mergeItem stack) items s1
                         | Object _ \<Rightarrow> (Some TypeError, s1))
                    | None \<Rightarrow>
                        (case dat of
                           Array items \<Rightarrow>
                             (case allocList (map ofJson items) (heap s1) of
                                (as, hp) \<Rightarrow>
                                  forEach (addToComponentsMap stack) as
                                    (s1\<lparr>heap := hp, rootInstances := as\<rparr>))
                         | Object _ \<Rightarrow> (None, s1)))
                 of
                   (Some e, s2) \<Rightarrow> (Some e, s2)
                 | (None, s2) \<Rightarrow>
                     (None,
                      if isRoot \<and> \<not> falsy (selectedComponentId s2)
                           \<and> selectedComponentData s2 = None
                           \<and> falsy (selectedComponentPendingId s2)
                      then loadComponent (selectedComponentId s2) s2
                      else s2))))"

text \<open>The handler of \<^verbatim>\<open>TO_FRONT_COMPONENT_SELECTED_DATA\<close>; \<open>parentIds = None\<close> when the
  message carries no \<^verbatim>\<open>parentIds\<close>.\<close>

definition handleSelectedData ::
  "(string \<Rightarrow> val option) \<Rightarrow> string \<Rightarrow> string \<Rightarrow> string list option \<Rightarrow> state \<Rightarrow> error option \<times> state" where
  "handleSelectedData parse instanceId dat parentIds s =
     (if Some instanceId = selectedComponentId s \<and> parse dat = None
      then (Some DataFormatError, s)
      else
        let s1 = (if Some instanceId = selectedComponentId s
                  then s\<lparr>selectedComponentData := parse dat\<rparr> else s);
            s2 = (if Some instanceId = selectedComponentPendingId s1
                  then s1\<lparr>selectedComponentPendingId := None\<rparr> else s1)
        in (None,
            case parentIds of
              None \<Rightarrow> s2
            | Some pids \<Rightarrow>
                fold (\<lambda>i s'. if endsWith i ''root'' then s'
                             else requestComponentTree (Some i) (setComponentOpen i True s'))
                  (rev pids) s2))"

subsection \<open>Notions used to state the properties\<close>

text \<open>The nodes of the current tree: what the user interface reaches from
  \<^verbatim>\<open>rootInstances\<close> by following \<^verbatim>\<open>children\<close>.\<close>

inductive reachable :: "state \<Rightarrow> addr \<Rightarrow> bool" for s :: state where
  root: "a \<in> set (rootInstances s) \<Longrightarrow> reachable s a"
| child: "reachable s p \<Longrightarrow> c \<in> set (children (heap s ! p)) \<Longrightarrow> reachable s c"

code_pred reachable .

text \<open>The parent table is consistent when, for every node of the current tree, it
  records exactly the ids of the nodes of the current tree that have this node as a
  child; a root then has no entry.\<close>

definition parentConsistent :: "state \<Rightarrow> bool" where
  "parentConsistent s =
     (\<forall>c pid. reachable s c \<longrightarrow>
        (componentsParent s (node_id (heap s ! c)) = Some pid) =
        (\<exists>p. reachable s p \<and> c \<in> set (children (heap s ! p)) \<and> node_id (heap s ! p) = pid))"

text \<open>The nodes below a stored node, the parent links below it as pairs (child id,
  parent id), and the condition that these links give every child id one parent id.\<close>

inductive below :: "node list \<Rightarrow> addr \<Rightarrow> addr \<Rightarrow> bool" for hp :: "node list" and x :: addr where
  self: "below hp x x"
| step: "below hp x p \<Longrightarrow> c \<in> set (children (hp ! p)) \<Longrightarrow> below hp x c"

definition links :: "node list \<Rightarrow> addr \<Rightarrow> (string \<times> string) set" where
  "links hp x =
     {(node_id (hp ! c), node_id (hp ! p)) | p c. below hp x p \<and> c \<in> set (children (hp ! p))}"

definition parentsAgree :: "node list \<Rightarrow> addr \<Rightarrow> bool" where
  "parentsAgree hp x = (\<forall>k v v'. (k, v) \<in> links hp x \<longrightarrow> (k, v') \<in> links hp x \<longrightarrow> v = v')"

text \<open>Every parent link of the current tree is recorded in the parent table.\<close>

definition parentsRecorded :: "state \<Rightarrow> bool" where
  "parentsRecorded s =
     (\<forall>p c. reachable s p \<longrightarrow> c \<in> set (children (heap s ! p)) \<longrightarrow>
        componentsParent s (node_id (heap s ! c)) = Some (node_id (heap s ! p)))"

text \<open>What a walk of \<^verbatim>\<open>addToComponentsMap\<close> may write into the parent table, and the
  links it has written.\<close>

definition wrote :: "(string \<times> string) set \<Rightarrow> state \<Rightarrow> state \<Rightarrow> bool" where
  "wrote L s s' =
     (heap s' = heap s \<and>
      (\<forall>k v. componentsParent s' k = Some v \<longrightarrow> componentsParent s k = Some v \<or> (k, v) \<in> L) \<and>
      dom (componentsParent s) \<subseteq> dom (componentsParent s'))"

definition covered :: "(string \<times> string) set \<Rightarrow> (string \<times> string) set \<Rightarrow> state \<Rightarrow> bool" where
  "covered L S s = (\<forall>(k, v) \<in> S. \<exists>v'. (k, v') \<in> L \<and> componentsParent s k = Some v')"

text \<open>The invariant of the store: the table maps every id to an allocated node that
  carries this id, and the children of allocated nodes and the roots are allocated.\<close>

definition wellFormed :: "state \<Rightarrow> bool" where
  "wellFormed s =
     ((\<forall>k x. componentsMap s k = Some x \<longrightarrow> x < length (heap s) \<and> node_id (heap s ! x) = k) \<and>
      (\<forall>x y. x < length (heap s) \<longrightarrow> y \<in> set (children (heap s ! x)) \<longrightarrow> y < length (heap s)) \<and>
      (\<forall>r \<in> set (rootInstances s). r < length (heap s)))"

definition closed :: "node list \<Rightarrow> bool" where
  "closed hp = (\<forall>x y. x < length hp \<longrightarrow> y \<in> set (children (hp ! x)) \<longrightarrow> y < length hp)"

text \<open>The addresses that an incoming node took over from stored nodes.\<close>

fun storedAddrs :: "data \<Rightarrow> addr set"
  and storedAddrsKids :: "kids \<Rightarrow> addr set"
  and storedAddrsList :: "data list \<Rightarrow> addr set" where
  "storedAddrs (Data i h ks m) = storedAddrsKids ks"
| "storedAddrsKids (Parsed ds) = storedAddrsList ds"
| "storedAddrsKids (Stored as) = set as"
| "storedAddrsList [] = {}"
| "storedAddrsList (d # ds) = storedAddrs d \<union> storedAddrsList ds"

text \<open>All ids of a parsed tree, its depth, its parent links in the order in which
  \<^verbatim>\<open>addToComponentsMap\<close> records them, and its nodes.\<close>

fun allIds :: "json \<Rightarrow> string list" where
  "allIds (JNode i h cs m) = i # concat (map allIds cs)"

fun depth :: "json \<Rightarrow> nat" where
  "depth (JNode i h cs m) = Suc (foldr max (map depth cs) 0)"

fun edges :: "json \<Rightarrow> (string \<times> string) list" where
  "edges (JNode i h cs m) = concat (map (\<lambda>c. (jid c, i) # edges c) cs)"

fun nodes :: "json \<Rightarrow> json list" where
  "nodes (JNode i h cs m) = JNode i h cs m # concat (map nodes cs)"

text \<open>The object at an address is the root of a stored copy of a parsed tree.\<close>

fun repr :: "node list \<Rightarrow> addr \<Rightarrow> json \<Rightarrow> bool" where
  "repr hp a (JNode i h cs m) =
     (a < length hp \<and> node_id (hp ! a) = i \<and> list_all2 (repr hp) (children (hp ! a)) cs)"

text \<open>Writing a list of (child, parent) pairs into a parent table, first pair first.\<close>

definition register :: "(string \<times> string) list \<Rightarrow> (string \<rightharpoonup> string) \<Rightarrow> (string \<rightharpoonup> string)" where
  "register E m = m ++ map_of (rev E)"

definition addsTree :: "nat \<Rightarrow> json \<Rightarrow> bool" where
  "addsTree d t =
     (\<forall>a s. repr (heap s) a t \<longrightarrow>
        fst (addToComponentsMap d a s) = None \<and>
        heap (snd (addToComponentsMap d a s)) = heap s \<and>
        rootInstances (snd (addToComponentsMap d a s)) = rootInstances s \<and>
        componentsParent (snd (addToComponentsMap d a s)) = register (edges t) (componentsParent s))"

text \<open>Positions in an incoming tree, before and after restoration, as lists of child
  indices; \<open>descends s t p\<close> holds when every node of \<open>t\<close> strictly above position \<open>p\<close> is
  stored and flagged \<^verbatim>\<open>hasChildren\<close>, so that \<^verbatim>\<open>restoreChildrenFromComponentsMap\<close>
  walks down to \<open>p\<close>.\<close>

fun jsub :: "json \<Rightarrow> nat list \<Rightarrow> json option" where
  "jsub t [] = Some t"
| "jsub (JNode i h cs m) (k # p) = (if k < length cs then jsub (cs ! k) p else None)"

fun dsub :: "data \<Rightarrow> nat list \<Rightarrow> data option" where
  "dsub d [] = Some d"
| "dsub (Data i h (Parsed ds) m) (k # p) = (if k < length ds then dsub (ds ! k) p else None)"
| "dsub (Data i h (Stored as) m) (k # p) = None"

fun descends :: "state \<Rightarrow> json \<Rightarrow> nat list \<Rightarrow> bool" where
  "descends s t [] = True"
| "descends s (JNode i h cs m) (k # p) =
     (componentsMap s i \<noteq> None \<and> h \<and> k < length cs \<and> descends s (cs ! k) p)"

text \<open>Walking down the stored tree from an object along a list of child indices, and
  the fact that the object reached this way, allocated in the range from \<open>lo\<close> to \<open>hi\<close>,
  is the incoming node \<open>d'\<close>.\<close>

fun follow :: "node list \<Rightarrow> addr \<Rightarrow> nat list \<Rightarrow> addr option" where
  "follow hp a [] = Some a"
| "follow hp a (k # p) =
     (if k < length (children (hp ! a)) then follow hp (children (hp ! a) ! k) p else None)"

definition placed :: "node list \<Rightarrow> nat \<Rightarrow> nat \<Rightarrow> addr \<Rightarrow> nat list \<Rightarrow> data \<Rightarrow> bool" where
  "placed H lo hi a p d' =
     (\<exists>y. follow H a p = Some y \<and> lo \<le> y \<and> y < hi \<and>
          node_id (H ! y) = data_id d' \<and> hasChildren (H ! y) = data_hasChildren d' \<and>
          (\<forall>arr. data_children d' = Stored arr \<longrightarrow> children (H ! y) = arr))"

text \<open>The conditions under which a refresh keeps the children of the node \<open>n\<close>.
  \<open>lazyOnly s n r t\<close>: every node with the id \<open>n\<close> inside the incoming node \<open>t\<close> is one that
  \<^verbatim>\<open>restoreChildrenFromComponentsMap\<close> refills, that is, it is flagged \<^verbatim>\<open>hasChildren\<close>,
  has no children, and the walk reaches it; \<open>r\<close> tells whether the walk reaches \<open>t\<close>
  itself, which it does at the top level and below a node that is stored and flagged
  \<^verbatim>\<open>hasChildren\<close>. \<open>refilled n cs d\<close>: in the restored node \<open>d\<close> every node with the id \<open>n\<close>
  has taken over the array \<open>cs\<close>. \<open>copiesAgree s I n cs\<close>: every stored node that
  carries the id \<open>n\<close> and lies below a node that the table holds for an id of \<open>I\<close> has
  the children \<open>cs\<close>, so that no stale copy of the node \<open>n\<close> with other children hangs
  below the nodes that an update with the ids \<open>I\<close> refreshes or takes children from.\<close>

fun lazyOnly :: "state \<Rightarrow> string \<Rightarrow> bool \<Rightarrow> json \<Rightarrow> bool" where
  "lazyOnly s n r (JNode i h cs m) =
     ((i = n \<longrightarrow> r \<and> h \<and> cs = []) \<and>
      (\<forall>c \<in> set cs. lazyOnly s n (r \<and> h \<and> componentsMap s i \<noteq> None) c))"

fun refilled :: "string \<Rightarrow> addr list \<Rightarrow> data \<Rightarrow> bool"
  and refilledKids :: "string \<Rightarrow> addr list \<Rightarrow> kids \<Rightarrow> bool"
  and refilledList :: "string \<Rightarrow> addr list \<Rightarrow> data list \<Rightarrow> bool" where
  "refilled n cs (Data i h ks m) = ((i = n \<longrightarrow> ks = Stored cs) \<and> refilledKids n cs ks)"
| "refilledKids n cs (Parsed ds) = refilledList n cs ds"
| "refilledKids n cs (Stored as) = True"
| "refilledList n cs [] = True"
| "refilledList n cs (d # ds) = (refilled n cs d \<and> refilledList n cs ds)"

definition copiesAgree :: "state \<Rightarrow> string set \<Rightarrow> string \<Rightarrow> addr list \<Rightarrow> bool" where
  "copiesAgree s I n cs =
     (\<forall>k \<in> I. \<forall>w z. componentsMap s k = Some w \<longrightarrow> below (heap s) w z \<longrightarrow>
        node_id (heap s ! z) = n \<longrightarrow> children (heap s ! z) = cs)"

text \<open>The parent links of the current tree as pairs (child id, parent id).
  \<open>treeAgrees s x\<close>: among the links of the current tree and those below the node \<open>x\<close>, no
  id is the child of two nodes with different ids. A parent table has one entry for
  each id, so it can record every link of the tree only if the tree agrees in this
  sense. \<open>agreeing stack items s\<close>: as the loop of a known-target update merges the
  incoming nodes one after the other, the tree agrees after each turn, for the node
  that the turn refreshed. \<open>touched stack items s\<close>: the ids that are children below a
  refreshed node right after its turn of the loop; these are the keys of the parent
  table that the update may rewrite.\<close>

definition treeLinks :: "state \<Rightarrow> (string \<times> string) set" where
  "treeLinks s =
     {(node_id (heap s ! c), node_id (heap s ! p)) | p c.
        reachable s p \<and> c \<in> set (children (heap s ! p))}"

definition treeAgrees :: "state \<Rightarrow> addr \<Rightarrow> bool" where
  "treeAgrees s x =
     (\<forall>k v v'. (k, v) \<in> treeLinks s \<union> links (heap s) x \<longrightarrow>
        (k, v') \<in> treeLinks s \<union> links (heap s) x \<longrightarrow> v = v')"

fun agreeing :: "nat \<Rightarrow> json list \<Rightarrow> state \<Rightarrow> bool" where
  "agreeing stack [] s = True"
| "agreeing stack (item # items) s =
     (case componentsMap s (jid item) of
        None \<Rightarrow> True
      | Some x \<Rightarrow>
          treeAgrees (snd (mergeItem stack item s)) x \<and>
          (fst (mergeItem stack item s) = None \<longrightarrow>
             agreeing stack items (snd (mergeItem stack item s))))"

fun touched :: "nat \<Rightarrow> json list \<Rightarrow> state \<Rightarrow> string set" where
  "touched stack [] s = {}"
| "touched stack (item # items) s =
     (case componentsMap s (jid item) of
        None \<Rightarrow> {}
      | Some x \<Rightarrow>
          fst ` links (heap (snd (mergeItem stack item s))) x \<union>
          (if fst (mergeItem stack item s) = None
           then touched stack items (snd (mergeItem stack item s)) else {}))"

text \<open>A tree message is the triple of its \<^verbatim>\<open>instanceId\<close>, \<^verbatim>\<open>treeData\<close> and
  \<^verbatim>\<open>notFound\<close>. The bridge delivers the messages one at a time; an exception ends the
  handler of one message and leaves the state as it is to the next message.
  \<open>proviso\<close> is the condition on one message under which the links of the tree stay
  recorded: when the message carries an array, either it replaces the roots and its
  nodes have pairwise distinct ids and fit the call stack, or it refreshes known nodes,
  the tree agrees after each turn of the loop and the call stack is not exhausted.
  \<open>admissible\<close>: every message of a sequence meets the proviso in the state in which it
  arrives.\<close>

type_synonym message = "string \<times> string option \<times> bool"

fun handleAll :: "(string \<Rightarrow> val option) \<Rightarrow> nat \<Rightarrow> message list \<Rightarrow> state \<Rightarrow> state" where
  "handleAll parse stack [] s = s"
| "handleAll parse stack ((t, td, nf) # ms) s =
     handleAll parse stack ms (snd (handleComponentTree parse stack t td nf s))"

definition proviso :: "(string \<Rightarrow> val option) \<Rightarrow> nat \<Rightarrow> string \<Rightarrow> string option \<Rightarrow> bool \<Rightarrow> state \<Rightarrow> bool" where
  "proviso parse stack t td nf s =
     (\<forall>items. \<not> falsy td \<and> parse (the td) = Some (Array items) \<longrightarrow>
        (if resetComponentsQueued s \<or> componentsMap s t = None
         then distinct (concat (map allIds items)) \<and> (\<forall>u \<in> set items. depth u \<le> stack)
         else agreeing stack items s \<and>
              fst (handleComponentTree parse stack t td nf s) \<noteq> Some RangeError))"

fun admissible :: "(string \<Rightarrow> val option) \<Rightarrow> nat \<Rightarrow> message list \<Rightarrow> state \<Rightarrow> bool" where
  "admissible parse stack [] s = True"
| "admissible parse stack ((t, td, nf) # ms) s =
     (proviso parse stack t td nf s \<and>
      admissible parse stack ms (snd (handleComponentTree parse stack t td nf s)))"

fun isTreeFetchFor :: "string \<Rightarrow> command \<Rightarrow> bool" where
  "isTreeFetchFor i (TreeFetch j f) = (j = i)"
| "isTreeFetchFor i (DetailFetch j) = False"

subsection \<open>Example inputs\<close>

text \<open>Two deserializers: one that always throws, one that always returns the given
  value.\<close>

definition parseFail :: "string \<Rightarrow> val option" where
  "parseFail td = None"

definition parseAs :: "val \<Rightarrow> string \<Rightarrow> val option" where
  "parseAs v td = Some v"

text \<open>The mirror after a first root fetch that delivered the root \<open>1:root\<close>, its child
  \<open>2\<close> and its grandchild \<open>3\<close>.\<close>

definition s_one :: state where
  "s_one = snd (handleComponentTree
      (parseAs (Array [JNode ''1:root'' True
         [JNode ''2'' True [JNode ''3'' False [] Map.empty] Map.empty] Map.empty]))
      (Suc (Suc (Suc 0))) ''1:root'' (Some ''[...]'') False init)"

text \<open>The mirror after a filtered root fetch: the filter matched node \<open>3\<close> (with its
  child \<open>4\<close>) and not the root, so the incoming list holds node \<open>3\<close> alone.\<close>

definition s_filtered :: state where
  "s_filtered = snd (handleComponentTree
      (parseAs (Array [JNode ''3'' True [JNode ''4'' False [] Map.empty] Map.empty]))
      (Suc (Suc 0)) ''1:root'' (Some ''[...]'') False (requestComponentTree None init))"

text \<open>A deserializer given by a table from serialized data to values; it throws on
  data that the table does not hold.\<close>

definition parseFrom :: "(string \<times> val) list \<Rightarrow> string \<Rightarrow> val option" where
  "parseFrom tbl td = map_of tbl td"

text \<open>The mirror after two messages whose nodes have pairwise distinct ids. The first
  root fetch delivers the root, its child \<open>5\<close> and the grandchild \<open>2\<close>, which has no
  children yet. The second message refreshes the root: node \<open>5\<close> comes collapsed
  (\<^verbatim>\<open>hasChildren\<close> set, no children sent) and node \<open>2\<close> comes as a child of the root, with
  a child \<open>3\<close>. The collapsed node \<open>5\<close> is given its stored children back, among them the
  old copy of node \<open>2\<close>: the tree now holds node \<open>2\<close> twice, below \<open>5\<close> without children
  and below the root with the child \<open>3\<close>, and the table maps \<open>2\<close> to the latter.\<close>

definition s_moved :: state where
  "s_moved = snd (handleComponentTree
      (parseAs (Array [JNode ''1:root'' True
         [JNode ''5'' True [] Map.empty,
          JNode ''2'' True [JNode ''3'' False [] Map.empty] Map.empty] Map.empty]))
      (Suc (Suc (Suc 0))) ''1:root'' (Some ''[...]'') False
      (snd (handleComponentTree
        (parseAs (Array [JNode ''1:root'' True
           [JNode ''5'' True [JNode ''2'' True [] Map.empty] Map.empty] Map.empty]))
        (Suc (Suc (Suc 0))) ''1:root'' (Some ''[...]'') False init)))"

section \<open>General lemmas\<close>

lemma s_one_vals:
  "heap s_one =
     [\<lparr>node_id = ''3'', hasChildren = False, children = [], meta = Map.empty\<rparr>,
      \<lparr>node_id = ''2'', hasChildren = True, children = [0], meta = Map.empty\<rparr>,
      \<lparr>node_id = ''1:root'', hasChildren = True, children = [1], meta = Map.empty\<rparr>]"
  "rootInstances s_one = [2]"
  "componentsMap s_one = [''1:root'' \<mapsto> 2, ''2'' \<mapsto> 1, ''3'' \<mapsto> 0]"
  "componentsParent s_one = [''2'' \<mapsto> ''1:root'', ''3'' \<mapsto> ''2'']"
  "resetComponentsQueued s_one = False"
  "selectedComponentId s_one = None"
  "sent s_one = []"
  "treeFilter s_one = []"
  by (simp_all add: s_one_def handleComponentTree_def parseAs_def init_def falsy_def endsWith_def
      numeral_2_eq_2)

lemma s_filtered_vals:
  "heap s_filtered =
     [\<lparr>node_id = ''4'', hasChildren = False, children = [], meta = Map.empty\<rparr>,
      \<lparr>node_id = ''3'', hasChildren = True, children = [0], meta = Map.empty\<rparr>]"
  "rootInstances s_filtered = [1]"
  "componentsMap s_filtered ''1:root'' = None"
  "componentsParent s_filtered ''4'' = Some ''3''"
  "resetComponentsQueued s_filtered = False"
  "selectedComponentId s_filtered = None"
  by (simp_all add: s_filtered_def handleComponentTree_def parseAs_def init_def falsy_def
      endsWith_def requestComponentTree_def resetComponents_def Let_def)

lemma s_moved_vals:
  "heap s_moved =
     [\<lparr>node_id = ''2'', hasChildren = True, children = [], meta = Map.empty\<rparr>,
      \<lparr>node_id = ''5'', hasChildren = True, children = [0], meta = Map.empty\<rparr>,
      \<lparr>node_id = ''1:root'', hasChildren = True, children = [3, 5], meta = Map.empty\<rparr>,
      \<lparr>node_id = ''5'', hasChildren = True, children = [0], meta = Map.empty\<rparr>,
      \<lparr>node_id = ''3'', hasChildren = False, children = [], meta = Map.empty\<rparr>,
      \<lparr>node_id = ''2'', hasChildren = True, children = [4], meta = Map.empty\<rparr>]"
  "rootInstances s_moved = [2]"
  "componentsMap s_moved ''1:root'' = Some 2"
  "componentsMap s_moved ''5'' = Some 3"
  "componentsMap s_moved ''2'' = Some 5"
  "componentsMap s_moved ''3'' = Some 4"
  "componentsParent s_moved ''5'' = Some ''1:root''"
  "componentsParent s_moved ''2'' = Some ''1:root''"
  "componentsParent s_moved ''3'' = Some ''2''"
  "resetComponentsQueued s_moved = False"
  "selectedComponentId s_moved = None"
  by (simp_all add: s_moved_def handleComponentTree_def mergeItem_def updateComponentsMapData_def
      parseAs_def init_def falsy_def endsWith_def numeral_2_eq_2 numeral_3_eq_3)


lemma forEach_error:
  assumes "\<And>x s. x \<in> set xs \<Longrightarrow> fst (f x s) = Some e \<Longrightarrow> P"
  shows "fst (forEach f xs s) = Some e \<Longrightarrow> P"
  using assms
proof (induction xs arbitrary: s)
  case Nil
  then show ?case by simp
next
  case (Cons x xs)
  show ?case
  proof (cases "f x s")
    case (Pair r s')
    show ?thesis
    proof (cases r)
      case None
      then have e': "fst (forEach f xs s') = Some e" using Cons.prems(1) Pair by simp
      show ?thesis
      proof (rule Cons.IH [OF e'])
        fix y :: 'a and s'' :: state
        assume "y \<in> set xs" and "fst (f y s'') = Some e"
        then show P using Cons.prems(2) [of y s''] by simp
      qed
    next
      case (Some e')
      then have "fst (f x s) = Some e" using Cons.prems(1) Pair by simp
      then show ?thesis using Cons.prems(2) [of x s] by simp
    qed
  qed
qed

lemma below_trans: "below hp c p \<Longrightarrow> below hp x c \<Longrightarrow> below hp x p"
  by (induction rule: below.induct) (auto intro: below.step)

lemma below_child: "c \<in> set (children (hp ! x)) \<Longrightarrow> below hp c p \<Longrightarrow> below hp x p"
  using below_trans [of hp c p x] below.step [OF below.self, of c hp x] by blast

lemma forEach_rel:
  assumes "\<And>x s. x \<in> set xs \<Longrightarrow> R s (snd (f x s))"
    and "\<And>s. R s s" and "\<And>s s' s''. R s s' \<Longrightarrow> R s' s'' \<Longrightarrow> R s s''"
  shows "R s (snd (forEach f xs s))"
  using assms(1)
proof (induction xs arbitrary: s)
  case Nil
  then show ?case using assms(2) by simp
next
  case (Cons x xs)
  have one: "R s (snd (f x s))" using Cons.prems by simp
  show ?case
  proof (cases "f x s")
    case (Pair r s')
    show ?thesis
    proof (cases r)
      case None
      have "R s' (snd (forEach f xs s'))" using Cons.IH Cons.prems by simp
      then show ?thesis using one Pair None assms(3) by simp
    next
      case (Some e)
      then show ?thesis using one Pair by simp
    qed
  qed
qed

lemma restore_id: "data_id (restoreChildrenFromComponentsMap s t) = jid t"
  by (cases t) (simp split: option.split)

lemma mergeItem_unseen:
  "componentsMap s (jid item) = None \<Longrightarrow> mergeItem stack item s = (Some TypeError, s)"
  by (simp add: mergeItem_def updateComponentsMapData_def restore_id)

lemma alloc_extends:
  "\<exists>ext. snd (alloc d hp) = hp @ ext"
  "\<exists>ext. snd (allocKids ks hp) = hp @ ext"
  "\<exists>ext. snd (allocList ds hp) = hp @ ext"
proof (induction d hp and ks hp and ds hp rule: alloc_allocKids_allocList.induct)
  case (1 i h ks m hp)
  then show ?case by (auto split: prod.split)
next
  case (2 ds hp)
  then show ?case by simp
next
  case (3 as hp)
  then show ?case by simp
next
  case (4 hp)
  then show ?case by simp
next
  case (5 d ds hp)
  then show ?case by (auto split: prod.split)
qed

lemma forEach_inv:
  assumes "\<And>x s. x \<in> set xs \<Longrightarrow> I s \<Longrightarrow> I (snd (f x s))" and "I s"
  shows "I (snd (forEach f xs s))"
  using assms
proof (induction xs arbitrary: s)
  case Nil
  then show ?case by simp
next
  case (Cons x xs)
  have one: "I (snd (f x s))" using Cons.prems by simp
  show ?case
  proof (cases "f x s")
    case (Pair r s')
    show ?thesis
    proof (cases r)
      case None
      have "I (snd (forEach f xs s'))" using Cons.IH Cons.prems one Pair by simp
      then show ?thesis using Pair None by simp
    next
      case (Some e)
      then show ?thesis using one Pair by simp
    qed
  qed
qed

lemma add_heap: "heap (snd (addToComponentsMap d x s)) = heap s"
proof (induction d arbitrary: x s)
  case 0
  then show ?case by simp
next
  case (Suc d)
  let ?s1 = "s\<lparr>componentsMap := (componentsMap s)(node_id (heap s ! x) \<mapsto> x)\<rparr>"
  let ?F = "\<lambda>c s'. addToComponentsMap d c
          (s'\<lparr>componentsParent :=
             (componentsParent s')(node_id (heap s' ! c) \<mapsto> node_id (heap s' ! x))\<rparr>)"
  have "heap (snd (forEach ?F (children (heap s ! x)) ?s1)) = heap s"
    by (rule forEach_inv [where I = "\<lambda>s'. heap s' = heap s"])
      (simp_all add: Suc.IH del: addToComponentsMap.simps)
  then show ?case by (simp only: addToComponentsMap.simps)
qed

lemma add_roots: "rootInstances (snd (addToComponentsMap d x s)) = rootInstances s"
proof (induction d arbitrary: x s)
  case 0
  then show ?case by simp
next
  case (Suc d)
  let ?s1 = "s\<lparr>componentsMap := (componentsMap s)(node_id (heap s ! x) \<mapsto> x)\<rparr>"
  let ?F = "\<lambda>c s'. addToComponentsMap d c
          (s'\<lparr>componentsParent :=
             (componentsParent s')(node_id (heap s' ! c) \<mapsto> node_id (heap s' ! x))\<rparr>)"
  have "rootInstances (snd (forEach ?F (children (heap s ! x)) ?s1)) = rootInstances s"
    by (rule forEach_inv [where I = "\<lambda>s'. rootInstances s' = rootInstances s"])
      (simp_all add: Suc.IH del: addToComponentsMap.simps)
  then show ?case by (simp only: addToComponentsMap.simps)
qed

section \<open>The invariant of the store\<close>

text \<open>Every state that the handlers and the requests reach from the initial one is well
  formed: the lemmas of this section show that each of them keeps \<open>wellFormed\<close>.\<close>

lemma storedAddrsList_map:
  "storedAddrsList (map f ts) = (\<Union>t \<in> set ts. storedAddrs (f t))"
  by (induction ts) auto

lemma stored_ofJson: "storedAddrs (ofJson t) = {}"
  by (induction t) (simp add: storedAddrsList_map)

lemma stored_restore:
  assumes "wellFormed s"
  shows "\<forall>y \<in> storedAddrs (restoreChildrenFromComponentsMap s t). y < length (heap s)"
proof (induction t)
  case (JNode i h cs m)
  show ?case
  proof (cases "componentsMap s i")
    case None
    then show ?thesis using stored_ofJson [of "JNode i h cs m"] by simp
  next
    case (Some inst)
    then have v: "inst < length (heap s)" using assms by (simp add: wellFormed_def)
    then have c: "\<forall>y \<in> set (children (heap s ! inst)). y < length (heap s)"
      using assms by (simp add: wellFormed_def)
    show ?thesis
      using Some c JNode.IH stored_ofJson [of "JNode i h cs m"]
      by (auto simp add: storedAddrsList_map)
  qed
qed

lemma alloc_closed:
  "closed hp \<Longrightarrow> \<forall>y \<in> storedAddrs d. y < length hp \<Longrightarrow>
     closed (snd (alloc d hp)) \<and> fst (alloc d hp) < length (snd (alloc d hp)) \<and>
     length hp \<le> length (snd (alloc d hp))"
  "closed hp \<Longrightarrow> \<forall>y \<in> storedAddrsKids ks. y < length hp \<Longrightarrow>
     closed (snd (allocKids ks hp)) \<and>
     (\<forall>y \<in> set (fst (allocKids ks hp)). y < length (snd (allocKids ks hp))) \<and>
     length hp \<le> length (snd (allocKids ks hp))"
  "closed hp \<Longrightarrow> \<forall>y \<in> storedAddrsList ds. y < length hp \<Longrightarrow>
     closed (snd (allocList ds hp)) \<and>
     (\<forall>y \<in> set (fst (allocList ds hp)). y < length (snd (allocList ds hp))) \<and>
     length hp \<le> length (snd (allocList ds hp))"
proof (induction d hp and ks hp and ds hp rule: alloc_allocKids_allocList.induct)
  case (1 i h ks m hp)
  obtain as hp' where al: "allocKids ks hp = (as, hp')" by (cases "allocKids ks hp")
  from 1 al have c: "closed hp'" and v: "\<forall>y \<in> set as. y < length hp'" and l: "length hp \<le> length hp'"
    by auto
  have "closed (hp' @ [\<lparr>node_id = i, hasChildren = h, children = as, meta = m\<rparr>])"
    using c v by (auto simp add: closed_def nth_append less_Suc_eq)
  then show ?case using al l by simp
next
  case (2 ds hp)
  then show ?case by simp
next
  case (3 as hp)
  then show ?case by simp
next
  case (4 hp)
  then show ?case by simp
next
  case (5 d ds hp)
  obtain a hp1 where a: "alloc d hp = (a, hp1)" by (cases "alloc d hp")
  obtain as hp2 where as: "allocList ds hp1 = (as, hp2)" by (cases "allocList ds hp1")
  from 5(1) [OF 5(3)] 5(4) a have c1: "closed hp1" and v1: "a < length hp1"
    and l1: "length hp \<le> length hp1" by auto
  have "\<forall>y \<in> storedAddrsList ds. y < length hp1" using 5(4) l1 by (auto intro: less_le_trans)
  from 5(2) [OF a [symmetric] c1 this] as have c2: "closed hp2"
    and v2: "\<forall>y \<in> set as. y < length hp2" and l2: "length hp1 \<le> length hp2" by auto
  show ?case using a as c2 v1 v2 l1 l2 by auto
qed

lemma add_wellFormed:
  "wellFormed s \<Longrightarrow> x < length (heap s) \<Longrightarrow> wellFormed (snd (addToComponentsMap d x s))"
proof (induction d arbitrary: x s)
  case 0
  then show ?case by simp
next
  case (Suc d)
  let ?s1 = "s\<lparr>componentsMap := (componentsMap s)(node_id (heap s ! x) \<mapsto> x)\<rparr>"
  let ?F = "\<lambda>c s'. addToComponentsMap d c
          (s'\<lparr>componentsParent :=
             (componentsParent s')(node_id (heap s' ! c) \<mapsto> node_id (heap s' ! x))\<rparr>)"
  let ?I = "\<lambda>s'. wellFormed s' \<and> heap s' = heap s"
  have first: "?I ?s1" using Suc.prems by (auto simp add: wellFormed_def)
  have kids: "\<forall>c \<in> set (children (heap s ! x)). c < length (heap s)"
    using Suc.prems by (simp add: wellFormed_def)
  have step: "\<And>c s'. c \<in> set (children (heap s ! x)) \<Longrightarrow> ?I s' \<Longrightarrow> ?I (snd (?F c s'))"
  proof -
    fix c :: addr and s' :: state
    assume c: "c \<in> set (children (heap s ! x))" and i: "?I s'"
    let ?s0 = "s'\<lparr>componentsParent :=
             (componentsParent s')(node_id (heap s' ! c) \<mapsto> node_id (heap s' ! x))\<rparr>"
    from i have ws: "wellFormed s'" and hs: "heap s' = heap s" by simp_all
    have w: "wellFormed ?s0" using ws by (simp add: wellFormed_def)
    have v: "c < length (heap ?s0)" using c kids hs by simp
    have "wellFormed (snd (addToComponentsMap d c ?s0))" using w v by (rule Suc.IH)
    moreover have "heap (snd (addToComponentsMap d c ?s0)) = heap s"
      using hs by (simp add: add_heap del: addToComponentsMap.simps)
    ultimately show "?I (snd (?F c s'))" by simp
  qed
  have "?I (snd (forEach ?F (children (heap s ! x)) ?s1))"
    using step first by (rule forEach_inv)
  then show ?case by (simp only: addToComponentsMap.simps)
qed

lemma mergeItem_wellFormed:
  assumes "wellFormed s"
  shows "wellFormed (snd (mergeItem stack item s))"
proof (cases "componentsMap s (jid item)")
  case None
  then show ?thesis using assms by (simp add: mergeItem_def updateComponentsMapData_def restore_id)
next
  case (Some comp)
  let ?d = "restoreChildrenFromComponentsMap s item"
  obtain as hp where al: "allocKids (data_children ?d) (heap s) = (as, hp)"
    by (cases "allocKids (data_children ?d) (heap s)")
  have cl: "closed (heap s)" using assms by (simp add: wellFormed_def closed_def)
  have "\<forall>y \<in> storedAddrs ?d. y < length (heap s)" using assms by (rule stored_restore)
  then have st: "\<forall>y \<in> storedAddrsKids (data_children ?d). y < length (heap s)"
    by (cases ?d) simp
  from alloc_closed(2) [OF cl st] al have c: "closed hp" and v: "\<forall>y \<in> set as. y < length hp"
    and l: "length (heap s) \<le> length hp" by simp_all
  from alloc_extends(2) [of "data_children ?d" "heap s"] al obtain ext where
    hp: "hp = heap s @ ext" by auto
  have cv: "comp < length (heap s)" using Some assms by (simp add: wellFormed_def)
  let ?s' = "s\<lparr>heap := hp[comp :=
       \<lparr>node_id = data_id ?d, hasChildren = data_hasChildren ?d, children = as,
        meta = meta (heap s ! comp) ++ data_meta ?d\<rparr>]\<rparr>"
  have res: "mergeItem stack item s = addToComponentsMap stack comp ?s'"
    using Some al by (simp add: mergeItem_def updateComponentsMapData_def restore_id)
  have m: "\<forall>k x. componentsMap s k = Some x \<longrightarrow> x < length (heap s) \<and> node_id (heap s ! x) = k"
    and r: "\<forall>r \<in> set (rootInstances s). r < length (heap s)"
    using assms by (simp_all add: wellFormed_def)
  have w1: "\<forall>k x. componentsMap ?s' k = Some x \<longrightarrow> x < length (heap ?s') \<and> node_id (heap ?s' ! x) = k"
  proof (intro allI impI)
    fix k x
    assume kx: "componentsMap ?s' k = Some x"
    then have a: "x < length (heap s)" and b: "node_id (heap s ! x) = k" using m by simp_all
    show "x < length (heap ?s') \<and> node_id (heap ?s' ! x) = k"
    proof (cases "x = comp")
      case True
      have "componentsMap s k = Some comp" using kx True by simp
      then have "node_id (heap s ! comp) = k" using m by blast
      moreover have "node_id (heap s ! comp) = jid item" using m Some by blast
      ultimately have "k = jid item" by simp
      then show ?thesis using True a l by (simp add: restore_id)
    next
      case False
      then show ?thesis using a b l hp by (simp add: nth_append)
    qed
  qed
  have w2: "\<forall>x y. x < length (heap ?s') \<longrightarrow> y \<in> set (children (heap ?s' ! x)) \<longrightarrow> y < length (heap ?s')"
  proof (intro allI impI)
    fix x y
    assume x: "x < length (heap ?s')" and y: "y \<in> set (children (heap ?s' ! x))"
    show "y < length (heap ?s')"
    proof (cases "x = comp")
      case True
      then show ?thesis using x y v by simp
    next
      case False
      then show ?thesis using x y c by (simp add: closed_def)
    qed
  qed
  have w3: "\<forall>r \<in> set (rootInstances ?s'). r < length (heap ?s')" using r l by auto
  have "wellFormed ?s'" using w1 w2 w3 unfolding wellFormed_def by blast
  moreover have "comp < length (heap ?s')" using cv l by simp
  ultimately show ?thesis unfolding res by (rule add_wellFormed)
qed

lemma wellFormed_frame:
  "wellFormed s \<Longrightarrow> heap s' = heap s \<Longrightarrow> rootInstances s' = rootInstances s \<Longrightarrow>
     componentsMap s' = componentsMap s \<Longrightarrow> wellFormed s'"
  by (simp add: wellFormed_def)

lemma reset_wellFormed: "wellFormed s \<Longrightarrow> wellFormed (resetComponents s)"
  by (simp add: wellFormed_def resetComponents_def)

lemma request_wellFormed: "wellFormed s \<Longrightarrow> wellFormed (requestComponentTree i s)"
  by (erule wellFormed_frame) (simp_all add: requestComponentTree_def Let_def)

lemma load_wellFormed: "wellFormed s \<Longrightarrow> wellFormed (loadComponent i s)"
  by (erule wellFormed_frame) (simp_all add: loadComponent_def)

lemma open_wellFormed: "wellFormed s \<Longrightarrow> wellFormed (setComponentOpen i b s)"
  by (erule wellFormed_frame) (simp_all add: setComponentOpen_def)

lemma replace_wellFormed:
  assumes "wellFormed s"
  shows "wellFormed (snd (case allocList (map ofJson items) (heap s) of
      (as, hp) \<Rightarrow> forEach (addToComponentsMap stack) as (s\<lparr>heap := hp, rootInstances := as\<rparr>)))"
proof -
  obtain as hp where al: "allocList (map ofJson items) (heap s) = (as, hp)"
    by (cases "allocList (map ofJson items) (heap s)")
  have cl: "closed (heap s)" using assms by (simp add: wellFormed_def closed_def)
  have st: "\<forall>y \<in> storedAddrsList (map ofJson items). y < length (heap s)"
    by (simp add: storedAddrsList_map stored_ofJson)
  from alloc_closed(3) [OF cl st] al have c: "closed hp" and v: "\<forall>y \<in> set as. y < length hp"
    and l: "length (heap s) \<le> length hp" by simp_all
  from alloc_extends(3) [of "map ofJson items" "heap s"] al obtain ext where
    hp: "hp = heap s @ ext" by auto
  let ?s2 = "s\<lparr>heap := hp, rootInstances := as\<rparr>"
  let ?I = "\<lambda>s'. wellFormed s' \<and> heap s' = hp"
  have m: "\<forall>k x. componentsMap s k = Some x \<longrightarrow> x < length (heap s) \<and> node_id (heap s ! x) = k"
    using assms by (simp add: wellFormed_def)
  have w1: "\<forall>k x. componentsMap ?s2 k = Some x \<longrightarrow> x < length (heap ?s2) \<and> node_id (heap ?s2 ! x) = k"
  proof (intro allI impI)
    fix k x
    assume "componentsMap ?s2 k = Some x"
    then have "x < length (heap s)" "node_id (heap s ! x) = k" using m by simp_all
    then show "x < length (heap ?s2) \<and> node_id (heap ?s2 ! x) = k"
      using l hp by (simp add: nth_append)
  qed
  have w2: "\<forall>x y. x < length (heap ?s2) \<longrightarrow> y \<in> set (children (heap ?s2 ! x)) \<longrightarrow> y < length (heap ?s2)"
    using c by (simp add: closed_def)
  have w3: "\<forall>r \<in> set (rootInstances ?s2). r < length (heap ?s2)" using v by simp
  have "wellFormed ?s2" using w1 w2 w3 unfolding wellFormed_def by blast
  then have first: "?I ?s2" by simp
  have step: "\<And>a s'. a \<in> set as \<Longrightarrow> ?I s' \<Longrightarrow> ?I (snd (addToComponentsMap stack a s'))"
    using v by (simp add: add_wellFormed add_heap del: addToComponentsMap.simps)
  have "?I (snd (forEach (addToComponentsMap stack) as ?s2))"
    using step first by (rule forEach_inv)
  then show ?thesis using al by simp
qed

lemma handleComponentTree_wellFormed:
  assumes "wellFormed s"
  shows "wellFormed (snd (handleComponentTree parse stack t td nf s))"
proof -
  let ?s1 = "if resetComponentsQueued s then resetComponents s else s"
  have w1: "wellFormed ?s1" using assms by (simp add: reset_wellFormed)
  have err: "\<And>e. wellFormed (?s1\<lparr>errors := e\<rparr>)"
    using w1 by (rule wellFormed_frame) simp_all
  have known: "\<And>items. wellFormed (snd (forEach (mergeItem stack) items ?s1))"
    using _ w1 by (rule forEach_inv) (rule mergeItem_wellFormed)
  have unknown: "\<And>items. wellFormed (snd (case allocList (map ofJson items) (heap ?s1) of
      (as, hp) \<Rightarrow> forEach (addToComponentsMap stack) as (?s1\<lparr>heap := hp, rootInstances := as\<rparr>)))"
    using w1 by (rule replace_wellFormed)
  have fin: "\<And>r. wellFormed (snd r) \<Longrightarrow>
      wellFormed (snd (case r of (Some e, s2) \<Rightarrow> (Some e, s2)
        | (None, s2) \<Rightarrow> (None,
            if endsWith t ''root'' \<and> \<not> falsy (selectedComponentId s2)
                 \<and> selectedComponentData s2 = None \<and> falsy (selectedComponentPendingId s2)
            then loadComponent (selectedComponentId s2) s2 else s2)))"
    by (auto simp add: load_wellFormed split: prod.split option.split)
  show ?thesis
  proof (cases "falsy td")
    case True
    then show ?thesis using w1 err by (simp add: handleComponentTree_def Let_def)
  next
    case False
    show ?thesis
    proof (cases "parse (the td)")
      case None
      then show ?thesis using False w1 by (simp add: handleComponentTree_def Let_def)
    next
      case (Some dat)
      show ?thesis
      proof (cases "componentsMap ?s1 t")
        case None
        show ?thesis
        proof (cases dat)
          case (Array items)
          show ?thesis
            using False Some None Array fin [OF unknown [of items]]
            by (simp add: handleComponentTree_def Let_def)
        next
          case (Object x)
          show ?thesis
            using False Some None Object fin [of "(None, ?s1)"] w1
            by (simp add: handleComponentTree_def Let_def)
        qed
      next
        case (Some inst)
        show ?thesis
        proof (cases dat)
          case (Array items)
          show ?thesis
            using False \<open>parse (the td) = Some dat\<close> Some Array fin [OF known [of items]]
            by (simp add: handleComponentTree_def Let_def)
        next
          case (Object x)
          show ?thesis
            using False \<open>parse (the td) = Some dat\<close> Some Object w1
            by (simp add: handleComponentTree_def Let_def)
        qed
      qed
    qed
  qed
qed

lemma handleSelectedData_wellFormed:
  assumes "wellFormed s"
  shows "wellFormed (snd (handleSelectedData parse i dat pids s))"
proof -
  have fold: "\<And>xs s. wellFormed s \<Longrightarrow> wellFormed (fold (\<lambda>i s'. if endsWith i ''root'' then s'
       else requestComponentTree (Some i) (setComponentOpen i True s')) xs s)"
  proof -
    fix xs :: "string list" and s :: state
    assume "wellFormed s"
    then show "wellFormed (fold (\<lambda>i s'. if endsWith i ''root'' then s'
       else requestComponentTree (Some i) (setComponentOpen i True s')) xs s)"
      by (induction xs arbitrary: s) (simp_all add: request_wellFormed open_wellFormed)
  qed
  have a: "\<And>v. wellFormed (s\<lparr>selectedComponentData := v\<rparr>)"
    using assms by (rule wellFormed_frame) simp_all
  have b: "\<And>s'. wellFormed s' \<Longrightarrow> wellFormed (s'\<lparr>selectedComponentPendingId := None\<rparr>)"
    by (erule wellFormed_frame) simp_all
  show ?thesis
    using assms a b fold
    by (auto simp add: handleSelectedData_def Let_def split: option.split)
qed

lemma init_wellFormed: "wellFormed init"
  by (simp add: wellFormed_def init_def)

lemma below_allocated:
  assumes "wellFormed s" and "w < length (heap s)" and "below (heap s) w z"
  shows "z < length (heap s)"
  using assms(3)
proof (induction rule: below.induct)
  case self
  then show ?case using assms(2) by simp
next
  case (step p c)
  then show ?case using assms(1) by (simp add: wellFormed_def)
qed

lemma reachable_allocated:
  assumes "wellFormed s" and "reachable s p"
  shows "p < length (heap s)"
  using assms(2)
proof (induction rule: reachable.induct)
  case (root a)
  then show ?case using assms(1) by (simp add: wellFormed_def)
next
  case (child p c)
  then show ?case using assms(1) by (simp add: wellFormed_def)
qed

section \<open>Lazy subtrees survive a refresh (C1)\<close>

lemma restore_descends:
  assumes "descends s t p" and "jsub t p = Some (JNode n True [] m)"
    and "componentsMap s n = Some a" and "children (heap s ! a) \<noteq> []"
  shows "dsub (restoreChildrenFromComponentsMap s t) p =
     Some (Data n True (Stored (children (heap s ! a))) m)"
  using assms(1, 2)
proof (induction p arbitrary: t)
  case Nil
  then show ?case using assms(3, 4) by simp
next
  case (Cons k p)
  obtain i h cs mt where t: "t = JNode i h cs mt" by (cases t)
  from Cons.prems t obtain inst where known: "componentsMap s i = Some inst" and h: "h"
    and k: "k < length cs" and d: "descends s (cs ! k) p"
    and sub: "jsub (cs ! k) p = Some (JNode n True [] m)"
    by auto
  from k have "cs \<noteq> []" by auto
  then have "restoreChildrenFromComponentsMap s t =
      Data i h (Parsed (map (restoreChildrenFromComponentsMap s) cs)) mt"
    using t known h by simp
  then show ?case using k Cons.IH [OF d sub] by simp
qed

lemma alloc_length:
  "length hp \<le> length (snd (alloc d hp))"
  "length hp \<le> length (snd (allocKids ks hp))"
  "length hp \<le> length (snd (allocList ds hp))"
  using alloc_extends(1) [of d hp] alloc_extends(2) [of ks hp] alloc_extends(3) [of ds hp]
  by auto

lemma placed_widen: "placed H lo hi a p d' \<Longrightarrow> lo' \<le> lo \<Longrightarrow> hi \<le> hi' \<Longrightarrow> placed H lo' hi' a p d'"
  unfolding placed_def by fastforce

lemma alloc_placed:
  "\<And>a hp' p d' H. alloc d hp = (a, hp') \<Longrightarrow> dsub d p = Some d' \<Longrightarrow>
      (\<forall>y. length hp \<le> y \<and> y < length hp' \<longrightarrow> H ! y = hp' ! y) \<Longrightarrow>
      placed H (length hp) (length hp') a p d'"
  "\<And>as hp' ds k p d' H. allocKids ks hp = (as, hp') \<Longrightarrow> ks = Parsed ds \<Longrightarrow>
      k < length ds \<Longrightarrow> dsub (ds ! k) p = Some d' \<Longrightarrow>
      (\<forall>y. length hp \<le> y \<and> y < length hp' \<longrightarrow> H ! y = hp' ! y) \<Longrightarrow>
      k < length as \<and> placed H (length hp) (length hp') (as ! k) p d'"
  "\<And>as hp' k p d' H. allocList ds hp = (as, hp') \<Longrightarrow>
      k < length ds \<Longrightarrow> dsub (ds ! k) p = Some d' \<Longrightarrow>
      (\<forall>y. length hp \<le> y \<and> y < length hp' \<longrightarrow> H ! y = hp' ! y) \<Longrightarrow>
      k < length as \<and> placed H (length hp) (length hp') (as ! k) p d'"
proof (induction d hp and ks hp and ds hp rule: alloc_allocKids_allocList.induct)
  case (1 i h ks m hp)
  obtain as hp1 where al: "allocKids ks hp = (as, hp1)" by (cases "allocKids ks hp")
  let ?n = "\<lparr>node_id = i, hasChildren = h, children = as, meta = m\<rparr>"
  from "1.prems"(1) al have a: "a = length hp1" and hp': "hp' = hp1 @ [?n]" by auto
  have l: "length hp \<le> length hp1" using alloc_length(2) [of hp ks] al by simp
  have Ha: "H ! a = ?n" using "1.prems"(3) a hp' l by simp
  show ?case
  proof (cases p)
    case Nil
    then have "d' = Data i h ks m" using "1.prems"(2) by simp
    moreover have "\<forall>arr. ks = Stored arr \<longrightarrow> as = arr" using al by auto
    ultimately show ?thesis
      unfolding placed_def using Nil Ha a hp' l by simp
  next
    case (Cons k p')
    from "1.prems"(2) Cons obtain ds where ks: "ks = Parsed ds" and k: "k < length ds"
      and sub: "dsub (ds ! k) p' = Some d'"
      by (cases ks) (auto split: if_splits)
    have ag: "\<forall>y. length hp \<le> y \<and> y < length hp1 \<longrightarrow> H ! y = hp1 ! y"
      using "1.prems"(3) hp' by (simp add: nth_append)
    from "1.IH" [OF al ks k sub ag] have ka: "k < length as"
      and pl: "placed H (length hp) (length hp1) (as ! k) p' d'" by simp_all
    have "follow H a (k # p') = follow H (as ! k) p'" using Ha ka by simp
    then show ?thesis
      using pl unfolding placed_def Cons hp' by fastforce
  qed
next
  case (2 ds hp)
  then show ?case by simp
next
  case (3 as hp)
  then show ?case by simp
next
  case (4 hp)
  then show ?case by simp
next
  case (5 d ds hp)
  obtain a hp1 where a: "alloc d hp = (a, hp1)" by (cases "alloc d hp")
  obtain as' hp2 where as': "allocList ds hp1 = (as', hp2)" by (cases "allocList ds hp1")
  from "5.prems"(1) a as' have eq: "as = a # as'" "hp' = hp2" by auto
  have l1: "length hp \<le> length hp1" using alloc_length(1) [of hp d] a by simp
  have l2: "length hp1 \<le> length hp2" using alloc_length(3) [of hp1 ds] as' by simp
  from alloc_extends(3) [of ds hp1] as' obtain ext where ext: "hp2 = hp1 @ ext" by auto
  show ?case
  proof (cases k)
    case 0
    then have sub: "dsub d p = Some d'" using "5.prems"(3) by simp
    have ag: "\<forall>y. length hp \<le> y \<and> y < length hp1 \<longrightarrow> H ! y = hp1 ! y"
      using "5.prems"(4) eq(2) ext by (simp add: nth_append)
    from "5.IH"(1) [OF a sub ag] have "placed H (length hp) (length hp1) a p d'" .
    then have "placed H (length hp) (length hp2) a p d'" using l2 by (rule placed_widen [OF _ le_refl])
    then show ?thesis using 0 eq by simp
  next
    case (Suc k')
    then have k': "k' < length ds" and sub: "dsub (ds ! k') p = Some d'"
      using "5.prems"(2, 3) by simp_all
    have ag: "\<forall>y. length hp1 \<le> y \<and> y < length hp2 \<longrightarrow> H ! y = hp2 ! y"
      using "5.prems"(4) eq(2) l1 by simp
    from "5.IH"(2) [OF a [symmetric] as' k' sub ag] have ka: "k' < length as'"
      and pl: "placed H (length hp1) (length hp2) (as' ! k') p d'" by simp_all
    have "placed H (length hp) (length hp2) (as' ! k') p d'"
      using pl l1 by (rule placed_widen) simp
    then show ?thesis using Suc eq ka by simp
  qed
qed

lemma refilledList_map:
  "refilledList n cs (map f ts) = (\<forall>t \<in> set ts. refilled n cs (f t))"
  by (induction ts) auto

lemma restore_refilled:
  assumes "componentsMap s n = Some y" and "children (heap s ! y) = cs" and "cs \<noteq> []"
  shows "(lazyOnly s n True t \<longrightarrow> refilled n cs (restoreChildrenFromComponentsMap s t)) \<and>
     (lazyOnly s n False t \<longrightarrow> refilled n cs (ofJson t))"
proof (induction t)
  case (JNode i h ts m)
  have unreached: "lazyOnly s n False (JNode i h ts m) \<longrightarrow> refilled n cs (ofJson (JNode i h ts m))"
    using JNode.IH by (auto simp add: refilledList_map)
  have reached: "lazyOnly s n True (JNode i h ts m) \<longrightarrow>
      refilled n cs (restoreChildrenFromComponentsMap s (JNode i h ts m))"
  proof
    assume l: "lazyOnly s n True (JNode i h ts m)"
    show "refilled n cs (restoreChildrenFromComponentsMap s (JNode i h ts m))"
    proof (cases "i = n")
      case True
      then have "h" "ts = []" using l by simp_all
      then show ?thesis using True assms by simp
    next
      case False
      show ?thesis
      proof (cases "componentsMap s i")
        case None
        then have "\<forall>c \<in> set ts. lazyOnly s n False c" using l by simp
        then show ?thesis using None False JNode.IH by (simp add: refilledList_map)
      next
        case (Some inst)
        show ?thesis
        proof (cases h)
          case True
          then have "\<forall>c \<in> set ts. lazyOnly s n True c" using l Some by simp
          then show ?thesis using Some False True JNode.IH by (simp add: refilledList_map)
        next
          case False
          then have "\<forall>c \<in> set ts. lazyOnly s n False c" using l by simp
          then show ?thesis using Some \<open>i \<noteq> n\<close> False JNode.IH by (simp add: refilledList_map)
        qed
      qed
    qed
  qed
  show ?case using reached unreached by blast
qed

lemma lazyOnly_mono:
  "lazyOnly s n r t \<Longrightarrow> (r \<longrightarrow> r') \<Longrightarrow>
     (\<forall>k. componentsMap s k \<noteq> None \<longrightarrow> componentsMap s' k \<noteq> None) \<Longrightarrow>
     lazyOnly s' n r' t"
proof (induction t arbitrary: r r')
  case (JNode i h ts m)
  from JNode.prems(1) have top: "i = n \<longrightarrow> r \<and> h \<and> ts = []"
    and sub: "\<forall>c \<in> set ts. lazyOnly s n (r \<and> h \<and> componentsMap s i \<noteq> None) c"
    by simp_all
  have a: "i = n \<longrightarrow> r' \<and> h \<and> ts = []" using top JNode.prems(2) by blast
  have "\<forall>c \<in> set ts. lazyOnly s' n (r' \<and> h \<and> componentsMap s' i \<noteq> None) c"
  proof
    fix c assume c: "c \<in> set ts"
    have 1: "lazyOnly s n (r \<and> h \<and> componentsMap s i \<noteq> None) c" using sub c by blast
    have 2: "(r \<and> h \<and> componentsMap s i \<noteq> None) \<longrightarrow> (r' \<and> h \<and> componentsMap s' i \<noteq> None)"
      using JNode.prems(2, 3) by blast
    show "lazyOnly s' n (r' \<and> h \<and> componentsMap s' i \<noteq> None) c"
      using c 1 2 JNode.prems(3) by (rule JNode.IH)
  qed
  then show ?case using a by simp
qed

lemma alloc_refilled:
  "\<And>a hp'. refilled n cs d \<Longrightarrow> alloc d hp = (a, hp') \<Longrightarrow>
      \<forall>z. length hp \<le> z \<and> z < length hp' \<longrightarrow> node_id (hp' ! z) = n \<longrightarrow> children (hp' ! z) = cs"
  "\<And>as hp'. refilledKids n cs ks \<Longrightarrow> allocKids ks hp = (as, hp') \<Longrightarrow>
      (\<forall>arr. ks = Stored arr \<longrightarrow> as = arr) \<and>
      (\<forall>z. length hp \<le> z \<and> z < length hp' \<longrightarrow> node_id (hp' ! z) = n \<longrightarrow> children (hp' ! z) = cs)"
  "\<And>as hp'. refilledList n cs ds \<Longrightarrow> allocList ds hp = (as, hp') \<Longrightarrow>
      \<forall>z. length hp \<le> z \<and> z < length hp' \<longrightarrow> node_id (hp' ! z) = n \<longrightarrow> children (hp' ! z) = cs"
proof (induction d hp and ks hp and ds hp rule: alloc_allocKids_allocList.induct)
  case (1 i h ks m hp)
  obtain as hp1 where al: "allocKids ks hp = (as, hp1)" by (cases "allocKids ks hp")
  from "1.prems" al have hp': "hp' = hp1 @ [\<lparr>node_id = i, hasChildren = h, children = as, meta = m\<rparr>]"
    by auto
  from "1.prems"(1) have rk: "refilledKids n cs ks" and top: "i = n \<longrightarrow> ks = Stored cs" by simp_all
  from "1.IH" [OF rk al] have st: "\<forall>arr. ks = Stored arr \<longrightarrow> as = arr"
    and old: "\<forall>z. length hp \<le> z \<and> z < length hp1 \<longrightarrow> node_id (hp1 ! z) = n \<longrightarrow> children (hp1 ! z) = cs"
    by simp_all
  show ?case
  proof (intro allI impI)
    fix z assume z: "length hp \<le> z \<and> z < length hp'" and id: "node_id (hp' ! z) = n"
    show "children (hp' ! z) = cs"
    proof (cases "z < length hp1")
      case True
      then show ?thesis using z id old hp' by (simp add: nth_append)
    next
      case False
      then have "z = length hp1" using z hp' by simp
      then show ?thesis using id hp' top st by simp
    qed
  qed
next
  case (2 ds hp)
  then show ?case by simp
next
  case (3 as hp)
  then show ?case by auto
next
  case (4 hp)
  then show ?case by auto
next
  case (5 d ds hp)
  obtain a hp1 where a: "alloc d hp = (a, hp1)" by (cases "alloc d hp")
  obtain as' hp2 where as': "allocList ds hp1 = (as', hp2)" by (cases "allocList ds hp1")
  from "5.prems" a as' have eq: "hp' = hp2" by auto
  from "5.prems"(1) have r1: "refilled n cs d" and r2: "refilledList n cs ds" by simp_all
  from alloc_extends(3) [of ds hp1] as' obtain ext where ext: "hp2 = hp1 @ ext" by auto
  have l1: "length hp \<le> length hp1" using alloc_length(1) [of hp d] a by simp
  from "5.IH"(1) [OF r1 a]
  have o1: "\<forall>z. length hp \<le> z \<and> z < length hp1 \<longrightarrow> node_id (hp1 ! z) = n \<longrightarrow> children (hp1 ! z) = cs" .
  from "5.IH"(2) [OF a [symmetric] r2 as']
  have o2: "\<forall>z. length hp1 \<le> z \<and> z < length hp2 \<longrightarrow> node_id (hp2 ! z) = n \<longrightarrow> children (hp2 ! z) = cs" .
  show ?case
  proof (intro allI impI)
    fix z assume z: "length hp \<le> z \<and> z < length hp'" and id: "node_id (hp' ! z) = n"
    show "children (hp' ! z) = cs"
    proof (cases "z < length hp1")
      case True
      then show ?thesis using z id o1 eq ext by (simp add: nth_append)
    next
      case False
      then show ?thesis using z id o2 eq by simp
    qed
  qed
qed

lemma stored_restore_src:
  "y \<in> storedAddrs (restoreChildrenFromComponentsMap s t) \<Longrightarrow>
     \<exists>k \<in> set (allIds t). \<exists>inst. componentsMap s k = Some inst \<and>
       y \<in> set (children (heap s ! inst))"
proof (induction t)
  case (JNode i h ts m)
  show ?case
  proof (cases "componentsMap s i")
    case None
    then show ?thesis using JNode.prems stored_ofJson [of "JNode i h ts m"] by simp
  next
    case (Some inst)
    show ?thesis
    proof (cases "h \<and> ts = [] \<and> children (heap s ! inst) \<noteq> []")
      case True
      then have "y \<in> set (children (heap s ! inst))" using JNode.prems Some by simp
      then show ?thesis using Some by auto
    next
      case False
      show ?thesis
      proof (cases h)
        case True
        then have "y \<in> storedAddrsList (map (restoreChildrenFromComponentsMap s) ts)"
          using JNode.prems Some False by auto
        then obtain c where c: "c \<in> set ts"
          and "y \<in> storedAddrs (restoreChildrenFromComponentsMap s c)"
          by (auto simp add: storedAddrsList_map)
        then have "\<exists>k \<in> set (allIds c). \<exists>inst. componentsMap s k = Some inst \<and>
            y \<in> set (children (heap s ! inst))" by (rule JNode.IH)
        then show ?thesis using c by auto
      next
        case False
        then show ?thesis using JNode.prems Some stored_ofJson [of "JNode i h ts m"] by simp
      qed
    qed
  qed
qed

lemma alloc_new_children:
  "\<And>a hp'. alloc d hp = (a, hp') \<Longrightarrow>
      length hp \<le> a \<and> a < length hp' \<and>
      (\<forall>z. length hp \<le> z \<and> z < length hp' \<longrightarrow>
         (\<forall>y \<in> set (children (hp' ! z)). length hp \<le> y \<and> y < length hp' \<or> y \<in> storedAddrs d))"
  "\<And>as hp'. allocKids ks hp = (as, hp') \<Longrightarrow>
      (\<forall>y \<in> set as. length hp \<le> y \<and> y < length hp' \<or> y \<in> storedAddrsKids ks) \<and>
      (\<forall>z. length hp \<le> z \<and> z < length hp' \<longrightarrow>
         (\<forall>y \<in> set (children (hp' ! z)). length hp \<le> y \<and> y < length hp' \<or> y \<in> storedAddrsKids ks))"
  "\<And>as hp'. allocList ds hp = (as, hp') \<Longrightarrow>
      (\<forall>y \<in> set as. length hp \<le> y \<and> y < length hp') \<and>
      (\<forall>z. length hp \<le> z \<and> z < length hp' \<longrightarrow>
         (\<forall>y \<in> set (children (hp' ! z)). length hp \<le> y \<and> y < length hp' \<or> y \<in> storedAddrsList ds))"
proof (induction d hp and ks hp and ds hp rule: alloc_allocKids_allocList.induct)
  case (1 i h ks m hp)
  obtain as hp1 where al: "allocKids ks hp = (as, hp1)" by (cases "allocKids ks hp")
  from "1.prems" al have a: "a = length hp1"
    and hp': "hp' = hp1 @ [\<lparr>node_id = i, hasChildren = h, children = as, meta = m\<rparr>]"
    by auto
  have l: "length hp \<le> length hp1" using alloc_length(2) [of hp ks] al by simp
  from "1.IH" [OF al]
  have top: "\<forall>y \<in> set as. length hp \<le> y \<and> y < length hp1 \<or> y \<in> storedAddrsKids ks"
    and old: "\<forall>z. length hp \<le> z \<and> z < length hp1 \<longrightarrow>
         (\<forall>y \<in> set (children (hp1 ! z)). length hp \<le> y \<and> y < length hp1 \<or> y \<in> storedAddrsKids ks)"
    by simp_all
  have "\<forall>z. length hp \<le> z \<and> z < length hp' \<longrightarrow>
         (\<forall>y \<in> set (children (hp' ! z)).
            length hp \<le> y \<and> y < length hp' \<or> y \<in> storedAddrs (Data i h ks m))"
  proof (intro allI impI ballI)
    fix z y assume z: "length hp \<le> z \<and> z < length hp'" and y: "y \<in> set (children (hp' ! z))"
    show "length hp \<le> y \<and> y < length hp' \<or> y \<in> storedAddrs (Data i h ks m)"
    proof (cases "z < length hp1")
      case True
      then have "y \<in> set (children (hp1 ! z))" using y hp' by (simp add: nth_append)
      then have "length hp \<le> y \<and> y < length hp1 \<or> y \<in> storedAddrsKids ks"
        using old z True by blast
      then show ?thesis using hp' by auto
    next
      case False
      then have "z = length hp1" using z hp' by simp
      then have "y \<in> set as" using y hp' by simp
      then have "length hp \<le> y \<and> y < length hp1 \<or> y \<in> storedAddrsKids ks" using top by blast
      then show ?thesis using hp' by auto
    qed
  qed
  then show ?case using a hp' l by simp
next
  case (2 ds hp)
  then show ?case by auto
next
  case (3 as hp)
  then show ?case by auto
next
  case (4 hp)
  then show ?case by auto
next
  case (5 d ds hp)
  obtain a hp1 where a: "alloc d hp = (a, hp1)" by (cases "alloc d hp")
  obtain as' hp2 where as': "allocList ds hp1 = (as', hp2)" by (cases "allocList ds hp1")
  from "5.prems" a as' have eq: "as = a # as'" "hp' = hp2" by auto
  from alloc_extends(3) [of ds hp1] as' obtain ext where ext: "hp2 = hp1 @ ext" by auto
  have l1: "length hp \<le> length hp1" using alloc_length(1) [of hp d] a by simp
  have l2: "length hp1 \<le> length hp2" using alloc_length(3) [of hp1 ds] as' by simp
  from "5.IH"(1) [OF a]
  have a1: "length hp \<le> a \<and> a < length hp1"
    and o1: "\<forall>z. length hp \<le> z \<and> z < length hp1 \<longrightarrow>
         (\<forall>y \<in> set (children (hp1 ! z)). length hp \<le> y \<and> y < length hp1 \<or> y \<in> storedAddrs d)"
    by simp_all
  from "5.IH"(2) [OF a [symmetric] as']
  have a2: "\<forall>y \<in> set as'. length hp1 \<le> y \<and> y < length hp2"
    and o2: "\<forall>z. length hp1 \<le> z \<and> z < length hp2 \<longrightarrow>
         (\<forall>y \<in> set (children (hp2 ! z)). length hp1 \<le> y \<and> y < length hp2 \<or> y \<in> storedAddrsList ds)"
    by simp_all
  have tops: "\<forall>y \<in> set as. length hp \<le> y \<and> y < length hp'"
    using a1 a2 l1 l2 eq by auto
  have "\<forall>z. length hp \<le> z \<and> z < length hp' \<longrightarrow>
         (\<forall>y \<in> set (children (hp' ! z)).
            length hp \<le> y \<and> y < length hp' \<or> y \<in> storedAddrsList (d # ds))"
  proof (intro allI impI ballI)
    fix z y assume z: "length hp \<le> z \<and> z < length hp'" and y: "y \<in> set (children (hp' ! z))"
    show "length hp \<le> y \<and> y < length hp' \<or> y \<in> storedAddrsList (d # ds)"
    proof (cases "z < length hp1")
      case True
      then have "y \<in> set (children (hp1 ! z))" using y eq ext by (simp add: nth_append)
      then have "length hp \<le> y \<and> y < length hp1 \<or> y \<in> storedAddrs d" using o1 z True by blast
      then show ?thesis using l2 eq by auto
    next
      case False
      then have "length hp1 \<le> z \<and> z < length hp2" using z eq by simp
      moreover have "y \<in> set (children (hp2 ! z))" using y eq by simp
      ultimately have "length hp1 \<le> y \<and> y < length hp2 \<or> y \<in> storedAddrsList ds"
        using o2 by blast
      then show ?thesis using l1 eq by auto
    qed
  qed
  then show ?case using tops by blast
qed

lemma add_table_inv:
  assumes cl: "\<And>p c. G p \<Longrightarrow> c \<in> set (children (hp ! p)) \<Longrightarrow> G c"
    and gp: "\<And>k w. G w \<Longrightarrow> P k w"
  shows "heap s = hp \<Longrightarrow> G x \<Longrightarrow> \<forall>k w. componentsMap s k = Some w \<longrightarrow> P k w \<Longrightarrow>
     \<forall>k w. componentsMap (snd (addToComponentsMap d x s)) k = Some w \<longrightarrow> P k w"
proof (induction d arbitrary: x s)
  case 0
  then show ?case by simp
next
  case (Suc d)
  let ?s1 = "s\<lparr>componentsMap := (componentsMap s)(node_id (heap s ! x) \<mapsto> x)\<rparr>"
  let ?F = "\<lambda>c s'. addToComponentsMap d c
          (s'\<lparr>componentsParent :=
             (componentsParent s')(node_id (heap s' ! c) \<mapsto> node_id (heap s' ! x))\<rparr>)"
  let ?I = "\<lambda>s'. heap s' = hp \<and> (\<forall>k w. componentsMap s' k = Some w \<longrightarrow> P k w)"
  have first: "?I ?s1" using Suc.prems gp by simp
  have step: "\<And>c s'. c \<in> set (children (heap s ! x)) \<Longrightarrow> ?I s' \<Longrightarrow> ?I (snd (?F c s'))"
  proof -
    fix c :: addr and s' :: state
    assume c: "c \<in> set (children (heap s ! x))" and i: "?I s'"
    let ?s0 = "s'\<lparr>componentsParent :=
             (componentsParent s')(node_id (heap s' ! c) \<mapsto> node_id (heap s' ! x))\<rparr>"
    have gc: "G c" using Suc.prems(1, 2) c cl by blast
    have h0: "heap ?s0 = hp" using i by simp
    have t0: "\<forall>k w. componentsMap ?s0 k = Some w \<longrightarrow> P k w" using i by simp
    have "\<forall>k w. componentsMap (snd (addToComponentsMap d c ?s0)) k = Some w \<longrightarrow> P k w"
      using h0 gc t0 by (rule Suc.IH)
    moreover have "heap (snd (addToComponentsMap d c ?s0)) = hp"
      using h0 by (simp add: add_heap del: addToComponentsMap.simps)
    ultimately show "?I (snd (?F c s'))" by simp
  qed
  have "?I (snd (forEach ?F (children (heap s ! x)) ?s1))"
    using step first by (rule forEach_inv)
  then have "\<forall>k w. componentsMap (snd (forEach ?F (children (heap s ! x)) ?s1)) k = Some w \<longrightarrow> P k w"
    by (rule conjunct2)
  then show ?case unfolding addToComponentsMap.simps .
qed

lemma add_dom:
  "componentsMap s k \<noteq> None \<Longrightarrow> componentsMap (snd (addToComponentsMap d x s)) k \<noteq> None"
proof (induction d arbitrary: x s)
  case 0
  then show ?case by simp
next
  case (Suc d)
  let ?s1 = "s\<lparr>componentsMap := (componentsMap s)(node_id (heap s ! x) \<mapsto> x)\<rparr>"
  let ?F = "\<lambda>c s'. addToComponentsMap d c
          (s'\<lparr>componentsParent :=
             (componentsParent s')(node_id (heap s' ! c) \<mapsto> node_id (heap s' ! x))\<rparr>)"
  let ?I = "\<lambda>s'. componentsMap s' k \<noteq> None"
  have first: "?I ?s1" using Suc.prems by simp
  have step: "\<And>c s'. c \<in> set (children (heap s ! x)) \<Longrightarrow> ?I s' \<Longrightarrow> ?I (snd (?F c s'))"
  proof -
    fix c :: addr and s' :: state
    assume i: "?I s'"
    let ?s0 = "s'\<lparr>componentsParent :=
             (componentsParent s')(node_id (heap s' ! c) \<mapsto> node_id (heap s' ! x))\<rparr>"
    have "componentsMap ?s0 k \<noteq> None" using i by simp
    then have "componentsMap (snd (addToComponentsMap d c ?s0)) k \<noteq> None" by (rule Suc.IH)
    then show "?I (snd (?F c s'))" by simp
  qed
  have "?I (snd (forEach ?F (children (heap s ! x)) ?s1))"
    using step first by (rule forEach_inv)
  then show ?case unfolding addToComponentsMap.simps .
qed

lemma below_update:
  assumes x: "x < length hp0" and T: "\<forall>w \<in> T. w < length hp0"
    and cl: "\<forall>p c. p < length hp0 \<longrightarrow> c \<in> set (children (hp0 ! p)) \<longrightarrow> c < length hp0"
    and kx: "\<forall>c \<in> set (children X). length hp0 \<le> c \<and> c < length (hp0 @ ext) \<or>
        (\<exists>w \<in> T. c \<in> set (children (hp0 ! w)))"
    and kn: "\<forall>z. length hp0 \<le> z \<and> z < length (hp0 @ ext) \<longrightarrow>
        (\<forall>c \<in> set (children ((hp0 @ ext) ! z)). length hp0 \<le> c \<and> c < length (hp0 @ ext) \<or>
           (\<exists>w \<in> T. c \<in> set (children (hp0 ! w))))"
    and b: "below ((hp0 @ ext)[x := X]) w z" and w: "w \<in> T"
  shows "z = x \<or> (length hp0 \<le> z \<and> z < length (hp0 @ ext)) \<or>
     (z < length hp0 \<and> z \<noteq> x \<and> (\<exists>w' \<in> T. below hp0 w' z))"
  using b
proof (induction rule: below.induct)
  case self
  have "w < length hp0" using T w by blast
  moreover have "below hp0 w w" by (rule below.self)
  ultimately show ?case using w by blast
next
  case (step p c)
  let ?H = "(hp0 @ ext)[x := X]"
  have graft: "\<And>w'. w' \<in> T \<Longrightarrow> c \<in> set (children (hp0 ! w')) \<Longrightarrow> ?case"
  proof -
    fix w' assume w': "w' \<in> T" and c: "c \<in> set (children (hp0 ! w'))"
    have wl: "w' < length hp0" using T w' by blast
    then have cl': "c < length hp0" using cl c by blast
    have "below hp0 w' c" using below.self c by (rule below.step)
    then show ?case using cl' w' by blast
  qed
  from step.IH show ?case
  proof (elim disjE conjE bexE)
    assume p: "p = x"
    then have "children (?H ! p) = children X" using x by simp
    then have "c \<in> set (children X)" using step.hyps(2) by simp
    then have "length hp0 \<le> c \<and> c < length (hp0 @ ext) \<or>
        (\<exists>w \<in> T. c \<in> set (children (hp0 ! w)))" using kx by blast
    then show ?case using graft by blast
  next
    assume p: "length hp0 \<le> p" "p < length (hp0 @ ext)"
    then have "p \<noteq> x" using x by simp
    then have "?H ! p = (hp0 @ ext) ! p" by simp
    then have "c \<in> set (children ((hp0 @ ext) ! p))" using step.hyps(2) by simp
    then have "length hp0 \<le> c \<and> c < length (hp0 @ ext) \<or>
        (\<exists>w \<in> T. c \<in> set (children (hp0 ! w)))" using kn p by blast
    then show ?case using graft by blast
  next
    fix w' assume p: "p < length hp0" "p \<noteq> x" and w': "w' \<in> T" and bp: "below hp0 w' p"
    have "?H ! p = hp0 ! p" using p by (simp add: nth_append)
    then have c: "c \<in> set (children (hp0 ! p))" using step.hyps(2) by simp
    then have cl': "c < length hp0" using cl p by blast
    have "below hp0 w' c" using bp c by (rule below.step)
    then show ?case using cl' w' by blast
  qed
qed

lemma mergeItem_lazy:
  assumes wf: "wellFormed s" and y: "componentsMap s n = Some y"
    and cy: "children (heap s ! y) = cs"
    and ca: "copiesAgree s I n cs" and ne: "cs \<noteq> []" and lz: "lazyOnly s n True item"
    and sub: "set (allIds item) \<subseteq> I"
  shows "(\<exists>y'. componentsMap (snd (mergeItem stack item s)) n = Some y' \<and>
        children (heap (snd (mergeItem stack item s)) ! y') = cs) \<and>
     copiesAgree (snd (mergeItem stack item s)) I n cs \<and>
     (\<forall>k. componentsMap s k \<noteq> None \<longrightarrow> componentsMap (snd (mergeItem stack item s)) k \<noteq> None)"
proof (cases "componentsMap s (jid item)")
  case None
  then have "mergeItem stack item s = (Some TypeError, s)"
    by (simp add: mergeItem_def updateComponentsMapData_def restore_id)
  then show ?thesis using ca y cy by simp
next
  case (Some x)
  have m: "\<forall>k x. componentsMap s k = Some x \<longrightarrow> x < length (heap s) \<and> node_id (heap s ! x) = k"
    and cl: "\<forall>p c. p < length (heap s) \<longrightarrow> c \<in> set (children (heap s ! p)) \<longrightarrow> c < length (heap s)"
    using wf by (simp_all add: wellFormed_def)
  let ?d = "restoreChildrenFromComponentsMap s item"
  have rf: "refilled n cs ?d" using restore_refilled [OF y cy ne] lz by blast
  obtain as hp where al: "allocKids (data_children ?d) (heap s) = (as, hp)"
    by (cases "allocKids (data_children ?d) (heap s)")
  from alloc_extends(2) [of "data_children ?d" "heap s"] al obtain ext where
    hp: "hp = heap s @ ext" by auto
  let ?X = "\<lparr>node_id = data_id ?d, hasChildren = data_hasChildren ?d, children = as,
        meta = meta (heap s ! x) ++ data_meta ?d\<rparr>"
  let ?H = "(heap s @ ext)[x := ?X]"
  let ?s' = "s\<lparr>heap := ?H\<rparr>"
  let ?s2 = "snd (addToComponentsMap stack x ?s')"
  let ?T = "{w. \<exists>k \<in> I. componentsMap s k = Some w}"
  have res: "mergeItem stack item s = addToComponentsMap stack x ?s'"
    using Some al hp by (simp add: mergeItem_def updateComponentsMapData_def restore_id)
  obtain i h ks mt where d: "?d = Data i h ks mt" by (cases ?d)
  have ij: "i = jid item" using d restore_id [of s item] by simp
  have rk: "refilledKids n cs ks" and top: "i = n \<longrightarrow> ks = Stored cs" using rf d by simp_all
  have al': "allocKids ks (heap s) = (as, heap s @ ext)" using al d hp by simp
  from alloc_refilled(2) [OF rk al']
  have st: "\<forall>arr. ks = Stored arr \<longrightarrow> as = arr"
    and nw: "\<forall>z. length (heap s) \<le> z \<and> z < length (heap s @ ext) \<longrightarrow>
        node_id ((heap s @ ext) ! z) = n \<longrightarrow> children ((heap s @ ext) ! z) = cs"
    by blast+
  have src: "\<And>c. c \<in> storedAddrsKids ks \<Longrightarrow> \<exists>w \<in> ?T. c \<in> set (children (heap s ! w))"
  proof -
    fix c assume "c \<in> storedAddrsKids ks"
    then have "c \<in> storedAddrs ?d" using d by simp
    from stored_restore_src [OF this] sub
    show "\<exists>w \<in> ?T. c \<in> set (children (heap s ! w))" by blast
  qed
  from alloc_new_children(2) [OF al']
  have ka: "\<forall>c \<in> set as. length (heap s) \<le> c \<and> c < length (heap s @ ext) \<or> c \<in> storedAddrsKids ks"
    and kb: "\<forall>z. length (heap s) \<le> z \<and> z < length (heap s @ ext) \<longrightarrow>
        (\<forall>c \<in> set (children ((heap s @ ext) ! z)).
           length (heap s) \<le> c \<and> c < length (heap s @ ext) \<or> c \<in> storedAddrsKids ks)"
    by blast+
  have xl: "x < length (heap s)" and xid: "node_id (heap s ! x) = jid item" using m Some by blast+
  have jI: "jid item \<in> I" using sub by (cases item) auto
  have xT: "x \<in> ?T" using Some jI by blast
  have Tl: "\<forall>w \<in> ?T. w < length (heap s)" using m by blast
  have kx: "\<forall>c \<in> set (children ?X). length (heap s) \<le> c \<and> c < length (heap s @ ext) \<or>
        (\<exists>w \<in> ?T. c \<in> set (children (heap s ! w)))"
    using ka src by auto
  have kn': "\<forall>z. length (heap s) \<le> z \<and> z < length (heap s @ ext) \<longrightarrow>
        (\<forall>c \<in> set (children ((heap s @ ext) ! z)).
           length (heap s) \<le> c \<and> c < length (heap s @ ext) \<or>
           (\<exists>w \<in> ?T. c \<in> set (children (heap s ! w))))"
    using kb src by blast
  have cellx: "node_id ?X = n \<longrightarrow> children ?X = cs"
  proof
    assume "node_id ?X = n"
    then have "i = n" using d by simp
    then have "as = cs" using top st by blast
    then show "children ?X = cs" by simp
  qed
  let ?G = "\<lambda>w. \<forall>z. below ?H w z \<longrightarrow> node_id (?H ! z) = n \<longrightarrow> children (?H ! z) = cs"
  have G: "\<And>w. w \<in> ?T \<Longrightarrow> ?G w"
  proof (intro allI impI)
    fix w z
    assume w: "w \<in> ?T" and b: "below ?H w z" and id: "node_id (?H ! z) = n"
    from below_update [OF xl Tl cl kx kn' b w]
    show "children (?H ! z) = cs"
    proof (elim disjE conjE bexE)
      assume z: "z = x"
      then show ?thesis using id xl cellx by simp
    next
      assume z: "length (heap s) \<le> z" "z < length (heap s @ ext)"
      then have "?H ! z = (heap s @ ext) ! z" using xl by simp
      then show ?thesis using nw z id by simp
    next
      fix w' assume z: "z < length (heap s)" "z \<noteq> x" and w': "w' \<in> ?T"
        and bz: "below (heap s) w' z"
      have e: "?H ! z = heap s ! z" using z by (simp add: nth_append)
      then have "node_id (heap s ! z) = n" using id by simp
      then have "children (heap s ! z) = cs"
        using ca w' bz unfolding copiesAgree_def by blast
      then show ?thesis using e by simp
    qed
  qed
  let ?P = "\<lambda>k w. componentsMap s k = Some w \<or> ?G w"
  have clG: "\<And>p c. ?G p \<Longrightarrow> c \<in> set (children (?H ! p)) \<Longrightarrow> ?G c"
    using below_child by blast
  have gp: "\<And>k w. ?G w \<Longrightarrow> ?P k w" by blast
  have h': "heap ?s' = ?H" by simp
  have gx: "?G x" using G xT by blast
  have gt: "\<forall>k w. componentsMap ?s' k = Some w \<longrightarrow> ?P k w" by simp
  have after: "\<forall>k w. componentsMap ?s2 k = Some w \<longrightarrow> ?P k w"
    using clG gp h' gx gt by (rule add_table_inv)
  have ha: "heap ?s2 = ?H"
    by (simp add: add_heap del: addToComponentsMap.simps)
  have agree: "copiesAgree ?s2 I n cs"
    unfolding copiesAgree_def ha
  proof (intro ballI allI impI)
    fix k w z
    assume k: "k \<in> I" and kw: "componentsMap ?s2 k = Some w"
      and b: "below ?H w z" and id: "node_id (?H ! z) = n"
    have "componentsMap s k = Some w \<or> ?G w" using after kw by blast
    then have "?G w" using G k by blast
    then show "children (?H ! z) = cs" using b id by blast
  qed
  have dm: "\<forall>k. componentsMap s k \<noteq> None \<longrightarrow> componentsMap ?s2 k \<noteq> None"
    using add_dom [of ?s' _ stack x] by simp
  have w2: "wellFormed ?s2"
    using mergeItem_wellFormed [OF wf, of stack item] res by simp
  from dm y obtain y' where y': "componentsMap ?s2 n = Some y'" by blast
  have id': "node_id (?H ! y') = n" using w2 y' ha by (simp add: wellFormed_def)
  have "componentsMap s n = Some y' \<or> ?G y'" using after y' by blast
  then have "children (?H ! y') = cs"
  proof
    assume "componentsMap s n = Some y'"
    then have yy: "y' = y" using y by simp
    show ?thesis
    proof (cases "y = x")
      case True
      then show ?thesis using yy id' xl cellx by simp
    next
      case False
      have "y < length (heap s)" using m y by blast
      then have "?H ! y = heap s ! y" using False by (simp add: nth_append)
      then show ?thesis using yy cy by simp
    qed
  next
    assume "?G y'"
    moreover have "below ?H y' y'" by (rule below.self)
    ultimately show ?thesis using id' by blast
  qed
  then have "\<exists>y'. componentsMap ?s2 n = Some y' \<and> children (heap ?s2 ! y') = cs"
    using y' ha by auto
  then show ?thesis using agree dm unfolding res by blast
qed

lemma mergeItems_lazy:
  assumes ne: "cs \<noteq> []"
  shows "wellFormed s \<Longrightarrow> componentsMap s n = Some y \<Longrightarrow> children (heap s ! y) = cs \<Longrightarrow>
     copiesAgree s I n cs \<Longrightarrow> \<forall>item \<in> set items. lazyOnly s n True item \<Longrightarrow>
     \<forall>item \<in> set items. set (allIds item) \<subseteq> I \<Longrightarrow>
     (\<exists>y'. componentsMap (snd (forEach (mergeItem stack) items s)) n = Some y' \<and>
        children (heap (snd (forEach (mergeItem stack) items s)) ! y') = cs)"
proof (induction items arbitrary: s y)
  case Nil
  then show ?case by simp
next
  case (Cons item items)
  obtain r s1 where r: "mergeItem stack item s = (r, s1)" by (cases "mergeItem stack item s")
  have lz: "lazyOnly s n True item" using Cons.prems(5) by simp
  have sub: "set (allIds item) \<subseteq> I" using Cons.prems(6) by simp
  from mergeItem_lazy [OF Cons.prems(1, 2, 3, 4) ne lz sub, of stack]
  obtain y1 where y1: "componentsMap s1 n = Some y1" "children (heap s1 ! y1) = cs"
    and ca: "copiesAgree s1 I n cs"
    and dm: "\<forall>k. componentsMap s k \<noteq> None \<longrightarrow> componentsMap s1 k \<noteq> None"
    using r by auto
  have wf: "wellFormed s1" using mergeItem_wellFormed [OF Cons.prems(1), of stack item] r by simp
  show ?case
  proof (cases r)
    case None
    have l: "\<forall>item \<in> set items. lazyOnly s1 n True item"
      using Cons.prems(5) dm by (auto intro: lazyOnly_mono)
    have s: "\<forall>item \<in> set items. set (allIds item) \<subseteq> I" using Cons.prems(6) by simp
    from Cons.IH [OF wf y1 ca l s] show ?thesis using r None by simp
  next
    case (Some e)
    then show ?thesis using r y1 by simp
  qed
qed

lemma known_target_lazy:
  assumes "\<not> resetComponentsQueued s" and "componentsMap s t \<noteq> None"
    and "\<not> falsy td" and "parse (the td) = Some (Array items)"
    and wf: "wellFormed s" and kn: "componentsMap s n = Some a"
    and ne: "children (heap s ! a) \<noteq> []"
    and ca: "copiesAgree s (set (concat (map allIds items))) n (children (heap s ! a))"
    and lz: "\<forall>item \<in> set items. lazyOnly s n True item"
  shows "\<exists>y. componentsMap (snd (handleComponentTree parse stack t td nf s)) n = Some y \<and>
       node_id (heap (snd (handleComponentTree parse stack t td nf s)) ! y) = n \<and>
       children (heap (snd (handleComponentTree parse stack t td nf s)) ! y) =
         children (heap s ! a)"
proof -
  let ?r = "forEach (mergeItem stack) items s"
  let ?s' = "snd (handleComponentTree parse stack t td nf s)"
  have sub: "\<forall>item \<in> set items. set (allIds item) \<subseteq> set (concat (map allIds items))"
    by auto
  from mergeItems_lazy [OF ne wf kn refl ca lz sub, of stack]
  obtain y where y: "componentsMap (snd ?r) n = Some y"
    "children (heap (snd ?r) ! y) = children (heap s ! a)" by blast
  obtain e s2 where r: "?r = (e, s2)" by (cases ?r)
  have eq: "heap ?s' = heap s2 \<and> componentsMap ?s' = componentsMap s2"
    using assms(1, 2, 3, 4) r
    by (cases e) (auto simp add: handleComponentTree_def Let_def loadComponent_def)
  have w': "wellFormed ?s'" using wf by (rule handleComponentTree_wellFormed)
  have y': "componentsMap ?s' n = Some y" using y(1) r eq by simp
  have id: "node_id (heap ?s' ! y) = n" using w' y' by (simp add: wellFormed_def)
  have "children (heap ?s' ! y) = children (heap s ! a)" using y(2) r eq by simp
  then show ?thesis using y' id by blast
qed

lemma mergeItem_heap:
  assumes "componentsMap s (jid item) = Some x"
    and "allocKids (data_children (restoreChildrenFromComponentsMap s item)) (heap s) = (as, hp)"
  shows "heap (snd (mergeItem stack item s)) =
     hp[x := \<lparr>node_id = jid item,
              hasChildren = data_hasChildren (restoreChildrenFromComponentsMap s item),
              children = as,
              meta = meta (heap s ! x) ++ data_meta (restoreChildrenFromComponentsMap s item)\<rparr>]"
proof -
  let ?d = "restoreChildrenFromComponentsMap s item"
  let ?s' = "s\<lparr>heap := hp[x :=
       \<lparr>node_id = data_id ?d, hasChildren = data_hasChildren ?d, children = as,
        meta = meta (heap s ! x) ++ data_meta ?d\<rparr>]\<rparr>"
  have m: "mergeItem stack item s = addToComponentsMap stack x ?s'"
    using assms by (simp add: mergeItem_def updateComponentsMapData_def restore_id)
  have "heap (snd (addToComponentsMap stack x ?s')) = heap ?s'" by (rule add_heap)
  then show ?thesis unfolding m by (simp add: restore_id)
qed

lemma mergeItem_follow:
  assumes wf: "wellFormed s" and known: "componentsMap s n = Some a"
    and ne: "children (heap s ! a) \<noteq> []"
    and x: "componentsMap s (jid item) = Some x"
    and de: "descends s item p" and js: "jsub item p = Some (JNode n True [] m)"
  shows "\<exists>y. follow (heap (snd (mergeItem stack item s))) x p = Some y \<and>
       node_id (heap (snd (mergeItem stack item s)) ! y) = n \<and>
       hasChildren (heap (snd (mergeItem stack item s)) ! y) \<and>
       children (heap (snd (mergeItem stack item s)) ! y) = children (heap s ! a)"
proof (cases p)
  case Nil
  then have item: "item = JNode n True [] m" using js by simp
  then have xa: "x = a" using x known by simp
  let ?d = "restoreChildrenFromComponentsMap s item"
  have d: "?d = Data n True (Stored (children (heap s ! a))) m"
    using item known ne by simp
  have al: "allocKids (data_children ?d) (heap s) = (children (heap s ! a), heap s)"
    unfolding d by simp
  have H: "heap (snd (mergeItem stack item s)) =
     (heap s)[x := \<lparr>node_id = jid item, hasChildren = data_hasChildren ?d,
              children = children (heap s ! a),
              meta = meta (heap s ! x) ++ data_meta ?d\<rparr>]"
    using x al by (rule mergeItem_heap)
  have "a < length (heap s)" using wf known by (simp add: wellFormed_def)
  then show ?thesis unfolding H Nil using xa item d by simp
next
  case (Cons k q)
  let ?d = "restoreChildrenFromComponentsMap s item"
  let ?D = "Data n True (Stored (children (heap s ! a))) m"
  obtain as hp where al: "allocKids (data_children ?d) (heap s) = (as, hp)"
    by (cases "allocKids (data_children ?d) (heap s)")
  let ?H = "hp[x := \<lparr>node_id = jid item, hasChildren = data_hasChildren ?d, children = as,
              meta = meta (heap s ! x) ++ data_meta ?d\<rparr>]"
  have H: "heap (snd (mergeItem stack item s)) = ?H"
    using x al by (rule mergeItem_heap)
  have sub: "dsub ?d (k # q) = Some ?D"
    using de js known ne unfolding Cons by (rule restore_descends)
  obtain i h ks mt where d: "?d = Data i h ks mt" by (cases ?d)
  from sub d obtain ds where ks: "ks = Parsed ds" and k: "k < length ds"
    and sub': "dsub (ds ! k) q = Some ?D"
    by (cases ks) (auto split: if_splits)
  have al': "allocKids ks (heap s) = (as, hp)" using al d by simp
  have xl: "x < length (heap s)" using wf x by (simp add: wellFormed_def)
  have l: "length (heap s) \<le> length hp" using alloc_length(2) [of "heap s" ks] al' by simp
  have ag: "\<forall>y. length (heap s) \<le> y \<and> y < length hp \<longrightarrow> ?H ! y = hp ! y"
    using xl by simp
  from alloc_placed(2) [OF al' ks k sub' ag]
  have ka: "k < length as" and pl: "placed ?H (length (heap s)) (length hp) (as ! k) q ?D"
    by simp_all
  have "children (?H ! x) = as" using xl l by simp
  then have "follow ?H x (k # q) = follow ?H (as ! k) q" using ka by simp
  then show ?thesis using pl unfolding H placed_def Cons by auto
qed

lemma copiesAgree_heap:
  assumes "wellFormed s"
    and "\<forall>z < length (heap s). node_id (heap s ! z) = n \<longrightarrow> children (heap s ! z) = cs"
  shows "copiesAgree s I n cs"
  unfolding copiesAgree_def
proof (intro ballI allI impI)
  fix k w z
  assume "componentsMap s k = Some w" and b: "below (heap s) w z" and id: "node_id (heap s ! z) = n"
  then have "w < length (heap s)" using assms(1) by (simp add: wellFormed_def)
  with assms(1) have "z < length (heap s)" using b by (rule below_allocated)
  then show "children (heap s ! z) = cs" using assms(2) id by blast
qed

text \<open>
  Claim C1, as amended. Let \<open>N\<close> be a node stored in the mirror (in a well-formed state
  the table maps its id \<open>n\<close> to the object \<open>a\<close>) with a non-empty stored children list.
  \<^item> Take a tree update for a known target, with any number of incoming nodes, in which
    every copy of \<open>N\<close>, at any depth, is flagged \<^verbatim>\<open>hasChildren\<close>, has an empty children
    list, and lies at the top level or below incoming nodes that are all stored and
    flagged \<^verbatim>\<open>hasChildren\<close>; and let no stale copy of \<open>N\<close> with other children hang below
    a stored node whose id occurs in the update. Then the children of \<open>N\<close> are unchanged in the mirror: whatever
    the outcome of the handler, the table maps \<open>n\<close> to a node with the id \<open>n\<close> whose
    children list is the one \<open>N\<close> had before the update.
  \<^item> The restoration is recursive and matches by id: inside an incoming node,
    \<^verbatim>\<open>restoreChildrenFromComponentsMap\<close> walks down through the nodes that are stored
    and flagged \<^verbatim>\<open>hasChildren\<close>, and a copy of \<open>N\<close> it reaches at a position \<open>p\<close> that is
    flagged \<^verbatim>\<open>hasChildren\<close> and has no children is given the stored children of \<open>N\<close>.
  \<^item> After the turn of the loop that merges this incoming node, the object found at
    position \<open>p\<close> below the refreshed node of the mirror is the node \<open>n\<close>, flagged
    \<^verbatim>\<open>hasChildren\<close>, with the children that \<open>N\<close> had before.
\<close>

theorem lazy_children_preserved:
  assumes "wellFormed s" and "componentsMap s n = Some a"
    and "children (heap s ! a) \<noteq> []"
  shows
    "(\<not> resetComponentsQueued s \<and> componentsMap s t \<noteq> None \<and>
      \<not> falsy td \<and> parse (the td) = Some (Array items) \<and>
      copiesAgree s (set (concat (map allIds items))) n (children (heap s ! a)) \<and>
      (\<forall>item \<in> set items. lazyOnly s n True item)
      \<longrightarrow>
        (\<exists>y. componentsMap (snd (handleComponentTree parse stack t td nf s)) n = Some y \<and>
           node_id (heap (snd (handleComponentTree parse stack t td nf s)) ! y) = n \<and>
           children (heap (snd (handleComponentTree parse stack t td nf s)) ! y) =
             children (heap s ! a))) \<and>
     (descends s item p \<and> jsub item p = Some (JNode n True [] m)
      \<longrightarrow>
        dsub (restoreChildrenFromComponentsMap s item) p =
          Some (Data n True (Stored (children (heap s ! a))) m)) \<and>
     (componentsMap s (jid item) = Some x \<and>
      descends s item p \<and> jsub item p = Some (JNode n True [] m)
      \<longrightarrow>
        (\<exists>y. follow (heap (snd (mergeItem stack item s))) x p = Some y \<and>
           node_id (heap (snd (mergeItem stack item s)) ! y) = n \<and>
           hasChildren (heap (snd (mergeItem stack item s)) ! y) \<and>
           children (heap (snd (mergeItem stack item s)) ! y) = children (heap s ! a)))"
proof (intro conjI impI)
  assume h: "\<not> resetComponentsQueued s \<and> componentsMap s t \<noteq> None \<and>
      \<not> falsy td \<and> parse (the td) = Some (Array items) \<and>
      copiesAgree s (set (concat (map allIds items))) n (children (heap s ! a)) \<and>
      (\<forall>item \<in> set items. lazyOnly s n True item)"
  then have h1: "\<not> resetComponentsQueued s" and h2: "componentsMap s t \<noteq> None"
    and h3: "\<not> falsy td" and h4: "parse (the td) = Some (Array items)"
    and h5: "copiesAgree s (set (concat (map allIds items))) n (children (heap s ! a))"
    and h6: "\<forall>item \<in> set items. lazyOnly s n True item"
    by blast+
  show "\<exists>y. componentsMap (snd (handleComponentTree parse stack t td nf s)) n = Some y \<and>
       node_id (heap (snd (handleComponentTree parse stack t td nf s)) ! y) = n \<and>
       children (heap (snd (handleComponentTree parse stack t td nf s)) ! y) =
         children (heap s ! a)"
    using h1 h2 h3 h4 assms h5 h6 by (rule known_target_lazy)
next
  assume "descends s item p \<and> jsub item p = Some (JNode n True [] m)"
  then show "dsub (restoreChildrenFromComponentsMap s item) p =
      Some (Data n True (Stored (children (heap s ! a))) m)"
    using assms(2, 3) by (simp add: restore_descends)
next
  assume h: "componentsMap s (jid item) = Some x \<and>
      descends s item p \<and> jsub item p = Some (JNode n True [] m)"
  then have h5: "componentsMap s (jid item) = Some x"
    and h6: "descends s item p" and h7: "jsub item p = Some (JNode n True [] m)"
    by blast+
  show "\<exists>y. follow (heap (snd (mergeItem stack item s))) x p = Some y \<and>
       node_id (heap (snd (mergeItem stack item s)) ! y) = n \<and>
       hasChildren (heap (snd (mergeItem stack item s)) ! y) \<and>
       children (heap (snd (mergeItem stack item s)) ! y) = children (heap s ! a)"
    using assms h5 h6 h7 by (rule mergeItem_follow)
qed

theorem lazy_children_preserved_witness:
  "componentsMap (snd (handleComponentTree (parseAs (Array [JNode ''2'' True [] Map.empty]))
       (Suc (Suc (Suc 0))) ''2'' (Some ''[...]'') False s_one)) ''2'' = Some 1 \<and>
   children (heap (snd (handleComponentTree (parseAs (Array [JNode ''2'' True [] Map.empty]))
       (Suc (Suc (Suc 0))) ''2'' (Some ''[...]'') False s_one)) ! 1) = [0] \<and>
   componentsMap (snd (handleComponentTree
       (parseAs (Array [JNode ''1:root'' True [JNode ''2'' True [] Map.empty] Map.empty]))
       (Suc (Suc (Suc 0))) ''1:root'' (Some ''[...]'') False s_one)) ''2'' = Some 3 \<and>
   children (heap (snd (handleComponentTree
       (parseAs (Array [JNode ''1:root'' True [JNode ''2'' True [] Map.empty] Map.empty]))
       (Suc (Suc (Suc 0))) ''1:root'' (Some ''[...]'') False s_one)) ! 3) = [0] \<and>
   dsub (restoreChildrenFromComponentsMap s_one
       (JNode ''1:root'' True [JNode ''2'' True [] Map.empty] Map.empty)) [0] =
     Some (Data ''2'' True (Stored [0]) Map.empty) \<and>
   follow (heap (snd (mergeItem (Suc (Suc (Suc 0)))
       (JNode ''1:root'' True [JNode ''2'' True [] Map.empty] Map.empty) s_one))) 2 [0] = Some 3 \<and>
   children (heap (snd (mergeItem (Suc (Suc (Suc 0)))
       (JNode ''1:root'' True [JNode ''2'' True [] Map.empty] Map.empty) s_one)) ! 3) = [0]"
proof -
  have ok: "wellFormed s_one"
    unfolding s_one_def by (rule handleComponentTree_wellFormed) (rule init_wellFormed)
  have ca: "\<And>I. copiesAgree s_one I ''2'' [0]"
    using ok by (rule copiesAgree_heap) (simp add: s_one_vals All_less_Suc)
  let ?lazy = "JNode ''2'' True [] Map.empty"
  let ?item = "JNode ''1:root'' True [?lazy] Map.empty"
  let ?s1 = "snd (handleComponentTree (parseAs (Array [?lazy]))
       (Suc (Suc (Suc 0))) ''2'' (Some ''[...]'') False s_one)"
  let ?s2 = "snd (handleComponentTree (parseAs (Array [?item]))
       (Suc (Suc (Suc 0))) ''1:root'' (Some ''[...]'') False s_one)"
  let ?s3 = "snd (mergeItem (Suc (Suc (Suc 0))) ?item s_one)"
  have m1: "componentsMap ?s1 ''2'' = Some 1"
    by (simp add: s_one_vals handleComponentTree_def mergeItem_def updateComponentsMapData_def
        parseAs_def falsy_def endsWith_def)
  have m2: "componentsMap ?s2 ''2'' = Some 3"
    by (simp add: s_one_vals handleComponentTree_def mergeItem_def updateComponentsMapData_def
        parseAs_def falsy_def endsWith_def numeral_2_eq_2 numeral_3_eq_3)
  have h3: "heap ?s3 =
     [\<lparr>node_id = ''3'', hasChildren = False, children = [], meta = Map.empty\<rparr>,
      \<lparr>node_id = ''2'', hasChildren = True, children = [0], meta = Map.empty\<rparr>,
      \<lparr>node_id = ''1:root'', hasChildren = True, children = [3], meta = Map.empty\<rparr>,
      \<lparr>node_id = ''2'', hasChildren = True, children = [0], meta = Map.empty\<rparr>]"
    using mergeItem_heap [of s_one ?item 2 "[3]" "heap s_one @
          [\<lparr>node_id = ''2'', hasChildren = True, children = [0], meta = Map.empty\<rparr>]"
        "Suc (Suc (Suc 0))"]
    by (simp add: s_one_vals numeral_2_eq_2 numeral_3_eq_3)
  have one: "children (heap ?s1 ! 1) = [0]"
    using lazy_children_preserved [of s_one "''2''" 1 "''2''" "Some ''[...]''"
        "parseAs (Array [?lazy])" "[?lazy]" "Suc (Suc (Suc 0))" False ?item "[0]" Map.empty 2] ok ca m1
    by (simp add: s_one_vals falsy_def parseAs_def)
  have two: "children (heap ?s2 ! 3) = [0] \<and>
     dsub (restoreChildrenFromComponentsMap s_one ?item) [0] =
       Some (Data ''2'' True (Stored [0]) Map.empty) \<and>
     follow (heap ?s3) 2 [0] = Some 3 \<and> children (heap ?s3 ! 3) = [0]"
    using lazy_children_preserved [of s_one "''2''" 1 "''1:root''" "Some ''[...]''"
        "parseAs (Array [?item])" "[?item]" "Suc (Suc (Suc 0))" False ?item "[0]" Map.empty 2] ok ca m2
    unfolding h3
    by (simp add: s_one_vals falsy_def parseAs_def numeral_2_eq_2 numeral_3_eq_3)
  from m1 m2 one two show ?thesis by simp
qed

text \<open>
  The claim as first stated asks nothing of the incoming copy but an empty children
  list. Four updates show what else is needed; in each the mirror holds node \<open>2\<close>
  flagged \<^verbatim>\<open>hasChildren\<close> with one child, the handler returns normally, and afterwards
  the node that the table holds for \<open>2\<close> has no children.
  \<^item> In \<open>s_one\<close> the incoming copy of \<open>2\<close> comes at the top level with an empty children
    list and \<^verbatim>\<open>hasChildren = false\<close>.
  \<^item> In \<open>s_one\<close> the incoming copy of \<open>2\<close> is flagged \<^verbatim>\<open>hasChildren\<close> and has an empty
    children list, but it comes below a node \<open>u\<close> that the table does not hold: the
    restoration does not walk into \<open>u\<close>.
  \<^item> In \<open>s_one\<close> the incoming copy of \<open>2\<close> is flagged \<^verbatim>\<open>hasChildren\<close> and has an empty
    children list, but it comes below an incoming root that is not flagged
    \<^verbatim>\<open>hasChildren\<close>: the restoration does not walk into that root either.
  \<^item> In \<open>s_moved\<close> the incoming copy of \<open>2\<close> comes at the top level, flagged
    \<^verbatim>\<open>hasChildren\<close>, with an empty children list, and it is restored; the same update
    refreshes the collapsed node \<open>5\<close>, below which the old copy of \<open>2\<close> without children
    hangs, and the walk over \<open>5\<close> puts that copy back into the table.
\<close>

theorem lazy_children_counterexample:
  "componentsMap s_one ''2'' = Some 1 \<and>
   hasChildren (heap s_one ! 1) \<and>
   children (heap s_one ! 1) = [0] \<and>
   fst (handleComponentTree (parseAs (Array [JNode ''2'' False [] Map.empty]))
       (Suc (Suc (Suc 0))) ''2'' (Some ''[...]'') False s_one) = None \<and>
   componentsMap (snd (handleComponentTree (parseAs (Array [JNode ''2'' False [] Map.empty]))
       (Suc (Suc (Suc 0))) ''2'' (Some ''[...]'') False s_one)) ''2'' = Some 1 \<and>
   children (heap (snd (handleComponentTree (parseAs (Array [JNode ''2'' False [] Map.empty]))
       (Suc (Suc (Suc 0))) ''2'' (Some ''[...]'') False s_one)) ! 1) = [] \<and>
   fst (handleComponentTree
       (parseAs (Array [JNode ''1:root'' True
          [JNode ''u'' True [JNode ''2'' True [] Map.empty] Map.empty] Map.empty]))
       (Suc (Suc (Suc 0))) ''1:root'' (Some ''[...]'') False s_one) = None \<and>
   componentsMap (snd (handleComponentTree
       (parseAs (Array [JNode ''1:root'' True
          [JNode ''u'' True [JNode ''2'' True [] Map.empty] Map.empty] Map.empty]))
       (Suc (Suc (Suc 0))) ''1:root'' (Some ''[...]'') False s_one)) ''2'' = Some 3 \<and>
   children (heap (snd (handleComponentTree
       (parseAs (Array [JNode ''1:root'' True
          [JNode ''u'' True [JNode ''2'' True [] Map.empty] Map.empty] Map.empty]))
       (Suc (Suc (Suc 0))) ''1:root'' (Some ''[...]'') False s_one)) ! 3) = [] \<and>
   fst (handleComponentTree
       (parseAs (Array [JNode ''1:root'' False [JNode ''2'' True [] Map.empty] Map.empty]))
       (Suc (Suc (Suc 0))) ''1:root'' (Some ''[...]'') False s_one) = None \<and>
   componentsMap (snd (handleComponentTree
       (parseAs (Array [JNode ''1:root'' False [JNode ''2'' True [] Map.empty] Map.empty]))
       (Suc (Suc (Suc 0))) ''1:root'' (Some ''[...]'') False s_one)) ''2'' = Some 3 \<and>
   children (heap (snd (handleComponentTree
       (parseAs (Array [JNode ''1:root'' False [JNode ''2'' True [] Map.empty] Map.empty]))
       (Suc (Suc (Suc 0))) ''1:root'' (Some ''[...]'') False s_one)) ! 3) = [] \<and>
   componentsMap s_moved ''2'' = Some 5 \<and>
   hasChildren (heap s_moved ! 5) \<and>
   children (heap s_moved ! 5) = [4] \<and>
   fst (handleComponentTree
       (parseAs (Array [JNode ''2'' True [] Map.empty, JNode ''5'' True [] Map.empty]))
       (Suc (Suc (Suc 0))) ''5'' (Some ''[...]'') False s_moved) = None \<and>
   componentsMap (snd (handleComponentTree
       (parseAs (Array [JNode ''2'' True [] Map.empty, JNode ''5'' True [] Map.empty]))
       (Suc (Suc (Suc 0))) ''5'' (Some ''[...]'') False s_moved)) ''2'' = Some 0 \<and>
   children (heap (snd (handleComponentTree
       (parseAs (Array [JNode ''2'' True [] Map.empty, JNode ''5'' True [] Map.empty]))
       (Suc (Suc (Suc 0))) ''5'' (Some ''[...]'') False s_moved)) ! 0) = []"
  by (simp add: s_one_vals s_moved_vals handleComponentTree_def mergeItem_def
      updateComponentsMapData_def parseAs_def falsy_def endsWith_def numeral_2_eq_2 numeral_3_eq_3)

section \<open>Detail responses (C2, C9)\<close>

lemma expand_fold_sel:
  "selectedComponentData (fold (\<lambda>i s'. if endsWith i ''root'' then s'
       else requestComponentTree (Some i) (setComponentOpen i True s')) xs s) = selectedComponentData s \<and>
   selectedComponentId (fold (\<lambda>i s'. if endsWith i ''root'' then s'
       else requestComponentTree (Some i) (setComponentOpen i True s')) xs s) = selectedComponentId s \<and>
   selectedComponentPendingId (fold (\<lambda>i s'. if endsWith i ''root'' then s'
       else requestComponentTree (Some i) (setComponentOpen i True s')) xs s) = selectedComponentPendingId s \<and>
   treeFilter (fold (\<lambda>i s'. if endsWith i ''root'' then s'
       else requestComponentTree (Some i) (setComponentOpen i True s')) xs s) = treeFilter s"
  by (induction xs arbitrary: s) (simp_all add: requestComponentTree_def setComponentOpen_def Let_def)

lemma expand_fold_sent:
  "[] \<notin> set xs \<Longrightarrow>
   sent (fold (\<lambda>i s'. if endsWith i ''root'' then s'
       else requestComponentTree (Some i) (setComponentOpen i True s')) xs s) =
     sent s @ map (\<lambda>i. TreeFetch i (treeFilter s)) (filter (\<lambda>i. \<not> endsWith i ''root'') xs)"
  by (induction xs arbitrary: s)
    (auto simp add: requestComponentTree_def setComponentOpen_def Let_def falsy_def)

lemma expand_fold_map:
  "expandedMap (fold (\<lambda>i s'. if endsWith i ''root'' then s'
       else requestComponentTree (Some i) (setComponentOpen i True s')) xs s) j =
     (if j \<in> set xs \<and> \<not> endsWith j ''root'' then Some True else expandedMap s j)"
  by (induction xs arbitrary: s)
    (auto simp add: requestComponentTree_def setComponentOpen_def Let_def)

lemma count_distinct: "j \<in> set xs \<Longrightarrow> distinct xs \<Longrightarrow> count_list xs j = 1"
  by (induction xs) auto

lemma count_fetches:
  "length (filter (isTreeFetchFor j) (map (\<lambda>i. TreeFetch i f) (filter P xs))) =
     (if P j then count_list xs j else 0)"
  by (induction xs) auto

text \<open>
  Claim C2. For every detail response whose data deserializes to \<open>payload\<close> and every
  prior state: the snapshot becomes \<open>payload\<close> if the subject id is the selected id and
  is left as it was otherwise (so a late response for an id that is no longer selected
  never overwrites it); the pending id is cleared if it is the subject id and is left
  as it was otherwise, whether or not the subject id is the selected one; the selected
  id itself does not change.
\<close>

theorem handleSelectedData_selection:
  assumes "parse dat = Some payload"
  shows "fst (handleSelectedData parse i dat pids s) = None \<and>
     selectedComponentId (snd (handleSelectedData parse i dat pids s)) = selectedComponentId s \<and>
     selectedComponentData (snd (handleSelectedData parse i dat pids s)) =
       (if Some i = selectedComponentId s then Some payload else selectedComponentData s) \<and>
     selectedComponentPendingId (snd (handleSelectedData parse i dat pids s)) =
       (if Some i = selectedComponentPendingId s then None else selectedComponentPendingId s)"
  using assms
  by (auto simp add: handleSelectedData_def Let_def expand_fold_sel split: option.split)

theorem handleSelectedData_selection_witness:
  "selectedComponentData (snd (handleSelectedData (parseAs (Object ''A'')) ''a'' ''{...}'' None
       (init\<lparr>selectedComponentId := Some ''b'', selectedComponentPendingId := Some ''a''\<rparr>))) = None \<and>
   selectedComponentPendingId (snd (handleSelectedData (parseAs (Object ''A'')) ''a'' ''{...}'' None
       (init\<lparr>selectedComponentId := Some ''b'', selectedComponentPendingId := Some ''a''\<rparr>))) = None \<and>
   selectedComponentData (snd (handleSelectedData (parseAs (Object ''B'')) ''b'' ''{...}'' None
       (init\<lparr>selectedComponentId := Some ''b'', selectedComponentPendingId := Some ''a''\<rparr>))) =
     Some (Object ''B'') \<and>
   selectedComponentPendingId (snd (handleSelectedData (parseAs (Object ''B'')) ''b'' ''{...}'' None
       (init\<lparr>selectedComponentId := Some ''b'', selectedComponentPendingId := Some ''a''\<rparr>))) =
     Some ''a''"
  using
    handleSelectedData_selection [of "parseAs (Object ''A'')" "''{...}''" "Object ''A''" "''a''" None
      "init\<lparr>selectedComponentId := Some ''b'', selectedComponentPendingId := Some ''a''\<rparr>"]
    handleSelectedData_selection [of "parseAs (Object ''B'')" "''{...}''" "Object ''B''" "''b''" None
      "init\<lparr>selectedComponentId := Some ''b'', selectedComponentPendingId := Some ''a''\<rparr>"]
  by (simp add: parseAs_def init_def)

text \<open>
  Claim C9. For every detail response that deserializes and carries an ancestor chain
  \<open>pids\<close> (innermost first, its ids non-empty): the tree-fetch commands go out for the
  ids that do not end in \<open>root\<close>, in the reverse order of the list, that is outermost
  first; every id of the list that ends in \<open>root\<close> is skipped (its expand state is
  untouched and no tree-fetch is sent for it); every other id of the list ends expanded
  and has one tree-fetch sent for each of its occurrences in the list, hence exactly
  one when no id occurs twice in the chain.
\<close>

theorem handleSelectedData_ancestors:
  assumes "parse dat = Some payload" and "[] \<notin> set pids"
  shows "fst (handleSelectedData parse i dat (Some pids) s) = None \<and>
     sent (snd (handleSelectedData parse i dat (Some pids) s)) =
       sent s @ map (\<lambda>j. TreeFetch j (treeFilter s)) (filter (\<lambda>j. \<not> endsWith j ''root'') (rev pids)) \<and>
     (\<forall>j \<in> set pids.
        if endsWith j ''root''
        then expandedMap (snd (handleSelectedData parse i dat (Some pids) s)) j = expandedMap s j \<and>
             filter (isTreeFetchFor j)
               (drop (length (sent s)) (sent (snd (handleSelectedData parse i dat (Some pids) s)))) = []
        else expandedMap (snd (handleSelectedData parse i dat (Some pids) s)) j = Some True \<and>
             length (filter (isTreeFetchFor j)
               (drop (length (sent s)) (sent (snd (handleSelectedData parse i dat (Some pids) s))))) =
               count_list pids j \<and>
             (distinct pids \<longrightarrow>
                length (filter (isTreeFetchFor j)
                  (drop (length (sent s)) (sent (snd (handleSelectedData parse i dat (Some pids) s))))) = 1))"
proof -
  let ?s' = "snd (handleSelectedData parse i dat (Some pids) s)"
  let ?new = "map (\<lambda>j. TreeFetch j (treeFilter s)) (filter (\<lambda>j. \<not> endsWith j ''root'') (rev pids))"
  have ok: "fst (handleSelectedData parse i dat (Some pids) s) = None"
    using assms(1) by (simp add: handleSelectedData_def Let_def)
  have nonempty: "[] \<notin> set (rev pids)" using assms(2) by simp
  have snt: "sent ?s' = sent s @ ?new"
    using assms(1) by (simp add: handleSelectedData_def Let_def expand_fold_sent [OF nonempty])
  have mp: "\<And>j. expandedMap ?s' j =
      (if j \<in> set pids \<and> \<not> endsWith j ''root'' then Some True else expandedMap s j)"
    using assms(1) by (simp add: handleSelectedData_def Let_def expand_fold_map)
  have cnt: "\<And>j. length (filter (isTreeFetchFor j) ?new) =
      (if \<not> endsWith j ''root'' then count_list pids j else 0)"
    using count_fetches [of _ "treeFilter s" "\<lambda>j. \<not> endsWith j ''root''" "rev pids"] by simp
  have drp: "drop (length (sent s)) (sent ?s') = ?new"
    by (simp only: snt append_eq_conv_conj drop_append) simp
  have cnt': "\<And>j. length (filter (isTreeFetchFor j) (drop (length (sent s)) (sent ?s'))) =
      (if \<not> endsWith j ''root'' then count_list pids j else 0)"
    by (simp only: drp cnt)
  have root: "\<And>j. j \<in> set pids \<Longrightarrow> endsWith j ''root'' \<Longrightarrow>
      expandedMap ?s' j = expandedMap s j \<and>
      filter (isTreeFetchFor j) (drop (length (sent s)) (sent ?s')) = []"
    using cnt' mp by (simp only: length_0_conv [symmetric]) simp
  have one: "\<And>j. j \<in> set pids \<Longrightarrow> distinct pids \<Longrightarrow> count_list pids j = 1"
    by (rule count_distinct)
  have inner: "\<And>j. j \<in> set pids \<Longrightarrow> \<not> endsWith j ''root'' \<Longrightarrow>
      expandedMap ?s' j = Some True \<and>
      length (filter (isTreeFetchFor j) (drop (length (sent s)) (sent ?s'))) = count_list pids j \<and>
      (distinct pids \<longrightarrow>
         length (filter (isTreeFetchFor j) (drop (length (sent s)) (sent ?s'))) = 1)"
    using cnt' mp one by simp
  show ?thesis
    using ok snt root inner by (simp only: split: if_split) blast
qed

theorem handleSelectedData_ancestors_witness:
  "sent (snd (handleSelectedData (parseAs (Object ''C'')) ''5'' ''{...}''
       (Some [''4'', ''2'', ''1:root'']) init)) = [TreeFetch ''2'' [], TreeFetch ''4'' []] \<and>
   expandedMap (snd (handleSelectedData (parseAs (Object ''C'')) ''5'' ''{...}''
       (Some [''4'', ''2'', ''1:root'']) init)) ''4'' = Some True \<and>
   expandedMap (snd (handleSelectedData (parseAs (Object ''C'')) ''5'' ''{...}''
       (Some [''4'', ''2'', ''1:root'']) init)) ''2'' = Some True \<and>
   expandedMap (snd (handleSelectedData (parseAs (Object ''C'')) ''5'' ''{...}''
       (Some [''4'', ''2'', ''1:root'']) init)) ''1:root'' = None"
  using handleSelectedData_ancestors [of "parseAs (Object ''C'')" "''{...}''" "Object ''C''"
      "[''4'', ''2'', ''1:root'']" "''5''" init]
  by (simp add: parseAs_def init_def endsWith_def)

section \<open>Loading a detail snapshot (C3)\<close>

text \<open>
  Claim C3. \<^verbatim>\<open>loadComponent(id)\<close> changes nothing and sends nothing when the id is empty
  or is the pending id; otherwise it sets the pending id and the last selected id to
  the id and sends one detail-fetch for it. A second call with the same id right after
  the first changes nothing, so the two calls together send exactly one detail-fetch
  when the id was not already pending.
\<close>

theorem loadComponent_dedup:
  "(falsy i \<or> selectedComponentPendingId s = i \<longrightarrow> loadComponent i s = s) \<and>
   (\<not> falsy i \<and> selectedComponentPendingId s \<noteq> i \<longrightarrow>
      loadComponent i s =
        s\<lparr>lastSelectedComponentId := i, selectedComponentPendingId := i,
          sent := sent s @ [DetailFetch (the i)]\<rparr>) \<and>
   loadComponent i (loadComponent i s) = loadComponent i s \<and>
   (\<not> falsy i \<and> selectedComponentPendingId s \<noteq> i \<longrightarrow>
      sent (loadComponent i (loadComponent i s)) = sent s @ [DetailFetch (the i)])"
  by (simp add: loadComponent_def)

theorem loadComponent_dedup_witness:
  "loadComponent None init = init \<and>
   loadComponent (Some ''7'') (loadComponent (Some ''7'') init) = loadComponent (Some ''7'') init \<and>
   sent (loadComponent (Some ''7'') (loadComponent (Some ''7'') init)) = [DetailFetch ''7'']"
  using loadComponent_dedup [of None init] loadComponent_dedup [of "Some ''7''" init]
  by (simp add: falsy_def init_def loadComponent_def)

section \<open>Requesting the tree and the deferred reset (C4)\<close>



section \<open>Messages without tree data (C5)\<close>

text \<open>
  Claim C5, as amended. For every tree message that carries no tree data, the handler
  returns normally after the pending reset, if any, and changes nothing else but this:
  when the target is a root and the message does not signal \<^verbatim>\<open>notFound\<close>, it surfaces
  \<open>Component tree not supported\<close> once. When \<^verbatim>\<open>notFound\<close> is signalled, or when the
  target is not a root, it surfaces nothing.
\<close>

theorem handleComponentTree_no_data:
  assumes "falsy td"
  shows "handleComponentTree parse stack t td nf s =
     (None,
      let s1 = (if resetComponentsQueued s then resetComponents s else s)
      in if endsWith t ''root'' \<and> \<not> nf
         then s1\<lparr>errors := errors s1 @ [''Component tree not supported'']\<rparr> else s1)"
  using assms by (simp add: handleComponentTree_def Let_def)

theorem handleComponentTree_no_data_witness:
  "handleComponentTree parseFail (Suc 0) ''1:root'' None False s_one =
     (None, s_one\<lparr>errors := errors s_one @ [''Component tree not supported'']\<rparr>) \<and>
   handleComponentTree parseFail (Suc 0) ''1:root'' None True s_one = (None, s_one) \<and>
   handleComponentTree parseFail (Suc 0) ''2'' None False s_one = (None, s_one)"
  using handleComponentTree_no_data [of None parseFail "Suc 0" "''1:root''" False s_one]
    handleComponentTree_no_data [of None parseFail "Suc 0" "''1:root''" True s_one]
    handleComponentTree_no_data [of None parseFail "Suc 0" "''2''" False s_one]
  by (simp add: falsy_def endsWith_def s_one_vals)

text \<open>
  The claim as first stated has the error surfaced for a root target when \<^verbatim>\<open>notFound\<close>
  accompanies the message. At exactly that input nothing is surfaced.
\<close>

theorem not_found_root_counterexample:
  "errors init = [] \<and>
   errors (snd (handleComponentTree parseFail (Suc 0) ''1:root'' None True init)) = []"
  by (simp add: handleComponentTree_def falsy_def init_def)

section \<open>Toggling a node (C6)\<close>

text \<open>
  Claim C6, as amended. \<^verbatim>\<open>toggleExpand(load)\<close> changes nothing and sends nothing when the
  node has \<^verbatim>\<open>hasChildren = false\<close>. Otherwise it sets the expand state of the node to
  expanded when it was collapsed or absent and to collapsed when it was expanded, and it
  sends a tree-fetch for the node if and only if \<open>load\<close> is requested, whether the new
  state is expanded or collapsed (an empty id is fetched as \<open>_root\<close>).
\<close>

theorem toggleExpand_effect:
  "(\<not> hasChildren n \<longrightarrow> toggleExpand n load s = s) \<and>
   (hasChildren n \<longrightarrow>
      expandedMap (toggleExpand n load s) =
        (expandedMap s)(node_id n \<mapsto> \<not> isExpanded s (node_id n)) \<and>
      sent (toggleExpand n load s) =
        (if load
         then sent s @ [TreeFetch (if node_id n = [] then ''_root'' else node_id n) (treeFilter s)]
         else sent s))"
  by (auto simp add: toggleExpand_def setComponentOpen_def requestComponentTree_def falsy_def Let_def)

theorem toggleExpand_effect_witness:
  "toggleExpand \<lparr>node_id = ''1:root'', hasChildren = False, children = [], meta = Map.empty\<rparr> True init
     = init \<and>
   expandedMap (toggleExpand \<lparr>node_id = ''a'', hasChildren = True, children = [], meta = Map.empty\<rparr>
     True init) ''a'' = Some True \<and>
   sent (toggleExpand \<lparr>node_id = ''a'', hasChildren = True, children = [], meta = Map.empty\<rparr>
     True init) = [TreeFetch ''a'' []] \<and>
   sent (toggleExpand \<lparr>node_id = ''a'', hasChildren = True, children = [], meta = Map.empty\<rparr>
     False init) = []"
  using
    toggleExpand_effect [of "\<lparr>node_id = ''1:root'', hasChildren = False, children = [], meta = Map.empty\<rparr>"
      True init]
    toggleExpand_effect [of "\<lparr>node_id = ''a'', hasChildren = True, children = [], meta = Map.empty\<rparr>"
      True init]
    toggleExpand_effect [of "\<lparr>node_id = ''a'', hasChildren = True, children = [], meta = Map.empty\<rparr>"
      False init]
  by (simp add: isExpanded_def init_def)

text \<open>
  The claim as first stated sends the tree-fetch only when the resulting state is
  expanded. Here the node is expanded, the toggle with \<open>load\<close> collapses it, and the
  tree-fetch is sent all the same.
\<close>

theorem toggle_collapse_counterexample:
  "isExpanded (setComponentOpen ''a'' True init) ''a'' \<and>
   sent (setComponentOpen ''a'' True init) = [] \<and>
   expandedMap (toggleExpand \<lparr>node_id = ''a'', hasChildren = True, children = [], meta = Map.empty\<rparr> True
     (setComponentOpen ''a'' True init)) ''a'' = Some False \<and>
   sent (toggleExpand \<lparr>node_id = ''a'', hasChildren = True, children = [], meta = Map.empty\<rparr> True
     (setComponentOpen ''a'' True init)) = [TreeFetch ''a'' []]"
  by (simp add: toggleExpand_def setComponentOpen_def requestComponentTree_def falsy_def Let_def
      isExpanded_def init_def)

section \<open>Data that does not deserialize (C7)\<close>

text \<open>
  Claim C7, as amended. When the tree data of a message does not deserialize, the
  handler raises the error and merges nothing. With no reset queued the whole state,
  and so the node table, the parent table and the roots, is exactly as it was before
  the message. With a reset queued the reset has been carried out before the data is
  deserialized: the state is the one \<^verbatim>\<open>resetComponents\<close> yields, with the three tables
  empty.
\<close>

theorem handleComponentTree_parse_failure:
  assumes "\<not> falsy td" and "parse (the td) = None"
  shows "handleComponentTree parse stack t td nf s =
     (Some DataFormatError, if resetComponentsQueued s then resetComponents s else s)"
  using assms by (simp add: handleComponentTree_def Let_def)

theorem handleComponentTree_parse_failure_witness:
  "handleComponentTree parseFail (Suc 0) ''1:root'' (Some ''[...'') False s_one =
     (Some DataFormatError, s_one)"
  using handleComponentTree_parse_failure [of "Some ''[...''" parseFail "Suc 0" "''1:root''" False s_one]
  by (simp add: falsy_def parseFail_def s_one_vals)

text \<open>
  The claim as first stated includes the states in which a reset is queued. Here the
  mirror of \<open>s_one\<close> has a root re-fetch requested, and the answer does not
  deserialize: the roots and both tables, non-empty before the message, are empty after
  it.
\<close>

theorem parse_failure_after_reset_counterexample:
  "rootInstances (requestComponentTree None s_one) = [2] \<and>
   componentsMap (requestComponentTree None s_one) ''2'' = Some 1 \<and>
   componentsParent (requestComponentTree None s_one) ''2'' = Some ''1:root'' \<and>
   fst (handleComponentTree parseFail (Suc 0) ''1:root'' (Some ''[...'') False
       (requestComponentTree None s_one)) = Some DataFormatError \<and>
   rootInstances (snd (handleComponentTree parseFail (Suc 0) ''1:root'' (Some ''[...'') False
       (requestComponentTree None s_one))) = [] \<and>
   componentsMap (snd (handleComponentTree parseFail (Suc 0) ''1:root'' (Some ''[...'') False
       (requestComponentTree None s_one))) ''2'' = None \<and>
   componentsParent (snd (handleComponentTree parseFail (Suc 0) ''1:root'' (Some ''[...'') False
       (requestComponentTree None s_one))) ''2'' = None"
  by (simp add: s_one_vals handleComponentTree_def requestComponentTree_def resetComponents_def
      parseFail_def falsy_def Let_def)

section \<open>The parent table (C8)\<close>

lemma repr_append: "repr hp a t \<Longrightarrow> repr (hp @ ext) a t"
proof (induction t arbitrary: a)
  case (JNode i h cs m)
  from JNode.prems have a: "a < length hp" and i: "node_id (hp ! a) = i"
    and l: "list_all2 (repr hp) (children (hp ! a)) cs" by simp_all
  have "list_all2 (repr (hp @ ext)) (children (hp ! a)) cs"
    using l JNode.IH by (rule list.rel_mono_strong)
  then show ?case using a i by (simp add: nth_append)
qed

lemma alloc_list_repr:
  assumes "\<forall>t \<in> set ts. \<forall>hp a hp'. alloc (ofJson t) hp = (a, hp') \<longrightarrow>
             (\<exists>ext. hp' = hp @ ext) \<and> repr hp' a t"
    and "allocList (map ofJson ts) hp = (as, hp')"
  shows "(\<exists>ext. hp' = hp @ ext) \<and> list_all2 (repr hp') as ts"
  using assms
proof (induction ts arbitrary: hp as hp')
  case Nil
  then show ?case by simp
next
  case (Cons t ts)
  obtain a hp1 where a: "alloc (ofJson t) hp = (a, hp1)" by (cases "alloc (ofJson t) hp")
  obtain as' hp2 where as': "allocList (map ofJson ts) hp1 = (as', hp2)"
    by (cases "allocList (map ofJson ts) hp1")
  from Cons.prems(2) a as' have eq: "as = a # as'" "hp' = hp2" by auto
  have "(\<exists>ext. hp1 = hp @ ext) \<and> repr hp1 a t"
    using Cons.prems(1) a by (simp del: alloc.simps)
  then obtain m1 where m1: "hp1 = hp @ m1" and r1: "repr hp1 a t"
    by blast
  have "\<forall>t \<in> set ts. \<forall>hp a hp'. alloc (ofJson t) hp = (a, hp') \<longrightarrow>
      (\<exists>ext. hp' = hp @ ext) \<and> repr hp' a t"
    using Cons.prems(1) by simp
  from Cons.IH [OF this as'] obtain m2 where m2: "hp2 = hp1 @ m2"
    and r2: "list_all2 (repr hp2) as' ts" by auto
  have "repr hp2 a t" using r1 m2 repr_append by simp
  then show ?case using eq m1 m2 r2 by simp
qed

lemma alloc_repr:
  "alloc (ofJson t) hp = (a, hp') \<Longrightarrow> (\<exists>ext. hp' = hp @ ext) \<and> repr hp' a t"
proof (induction t arbitrary: hp a hp')
  case (JNode i h cs m)
  obtain as hp1 where as: "allocList (map ofJson cs) hp = (as, hp1)"
    by (cases "allocList (map ofJson cs) hp")
  have "\<forall>t \<in> set cs. \<forall>hp a hp'. alloc (ofJson t) hp = (a, hp') \<longrightarrow>
      (\<exists>ext. hp' = hp @ ext) \<and> repr hp' a t"
    using JNode.IH by blast
  from alloc_list_repr [OF this as] obtain ext where
    m: "hp1 = hp @ ext" and r: "list_all2 (repr hp1) as cs" by blast
  from JNode.prems as have eq: "a = length hp1"
    "hp' = hp1 @ [\<lparr>node_id = i, hasChildren = h, children = as, meta = m\<rparr>]" by auto
  have "list_all2 (repr hp') as cs"
    using r unfolding eq(2) by (rule list.rel_mono_strong) (rule repr_append)
  then show ?case using eq m by simp
qed

lemma allocList_repr:
  "allocList (map ofJson ts) hp = (as, hp') \<Longrightarrow>
     (\<exists>ext. hp' = hp @ ext) \<and> list_all2 (repr hp') as ts"
  using alloc_list_repr [of ts hp as hp'] alloc_repr by blast

lemma repr_id: "repr hp a t \<Longrightarrow> node_id (hp ! a) = jid t"
  by (cases t) simp

lemma repr_root:
  "list_all2 (repr hp) as ts \<Longrightarrow> a \<in> set as \<Longrightarrow> \<exists>t \<in> set ts. repr hp a t"
  by (induction rule: list_all2_induct) auto

lemma repr_child:
  "repr hp p v \<Longrightarrow> c \<in> set (children (hp ! p)) \<Longrightarrow> \<exists>u \<in> set (jchildren v). repr hp c u"
  by (cases v) (auto dest: repr_root)

lemma depth_child: "c \<in> set cs \<Longrightarrow> depth c \<le> foldr max (map depth cs) 0"
  by (induction cs) auto

lemma nodes_self: "t \<in> set (nodes t)"
  by (cases t) simp

lemma nodes_child: "v \<in> set (nodes t) \<Longrightarrow> u \<in> set (jchildren v) \<Longrightarrow> u \<in> set (nodes t)"
proof (induction t)
  case (JNode i h cs m)
  show ?case
  proof (cases "v = JNode i h cs m")
    case True
    then show ?thesis using JNode.prems(2) nodes_self by auto
  next
    case False
    then show ?thesis using JNode by auto
  qed
qed

lemma edges_child:
  "v \<in> set (nodes t) \<Longrightarrow> u \<in> set (jchildren v) \<Longrightarrow> (jid u, jid v) \<in> set (edges t)"
proof (induction t)
  case (JNode i h cs m)
  show ?case
  proof (cases "v = JNode i h cs m")
    case True
    then show ?thesis using JNode.prems(2) by auto
  next
    case False
    then show ?thesis using JNode by auto
  qed
qed

lemma ids_edges: "allIds t = jid t # map fst (edges t)"
proof (induction t)
  case (JNode i h cs m)
  have "concat (map allIds cs) = concat (map (\<lambda>c. jid c # map fst (edges c)) cs)"
    using JNode.IH by (induction cs) auto
  then show ?case by (simp add: map_concat comp_def)
qed

lemma edge_keys_subset: "fst ` set (concat (map edges ts)) \<subseteq> set (concat (map allIds ts))"
  by (induction ts) (auto simp add: ids_edges)

lemma forest_distinct:
  "distinct (concat (map allIds ts)) \<Longrightarrow>
     distinct (map fst (concat (map edges ts))) \<and>
     (\<forall>t \<in> set ts. jid t \<notin> fst ` set (concat (map edges ts)))"
proof (induction ts)
  case Nil
  then show ?case by simp
next
  case (Cons t ts)
  let ?K = "fst ` set (concat (map edges ts))"
  from Cons.prems have d: "distinct (allIds t)" and dts: "distinct (concat (map allIds ts))"
    and disj: "set (allIds t) \<inter> set (concat (map allIds ts)) = {}" by simp_all
  from Cons.IH [OF dts] have ih1: "distinct (map fst (concat (map edges ts)))"
    and ih2: "\<forall>t \<in> set ts. jid t \<notin> ?K" by simp_all
  have sub: "?K \<subseteq> set (concat (map allIds ts))" by (rule edge_keys_subset)
  have tops: "\<forall>t' \<in> set ts. jid t' \<in> set (concat (map allIds ts))"
    by (auto simp add: ids_edges)
  from d have k1: "jid t \<notin> fst ` set (edges t)" and k2: "distinct (map fst (edges t))"
    by (simp_all add: ids_edges)
  from disj have k3: "jid t \<notin> set (concat (map allIds ts))"
    and k4: "fst ` set (edges t) \<inter> set (concat (map allIds ts)) = {}"
    by (auto simp add: ids_edges)
  have k5: "fst ` set (edges t) \<inter> ?K = {}" using k4 sub by blast
  have k6: "jid t \<notin> ?K" using k3 sub by blast
  have k7: "\<forall>t' \<in> set ts. jid t' \<notin> fst ` set (edges t)" using k4 tops by blast
  have split: "map fst (concat (map edges (t # ts))) =
      map fst (edges t) @ map fst (concat (map edges ts))" by simp
  have img: "fst ` set (concat (map edges (t # ts))) = fst ` set (edges t) \<union> ?K"
    by (simp add: image_Un)
  have "distinct (map fst (concat (map edges (t # ts))))"
    using k2 ih1 k5 by (simp only: split distinct_append set_map)
  moreover have "\<forall>t' \<in> set (t # ts). jid t' \<notin> fst ` set (concat (map edges (t # ts)))"
    using k1 k6 k7 ih2 by (simp only: img) simp
  ultimately show ?case by blast
qed

lemma register_Nil: "register [] m = m"
  by (simp add: register_def)

lemma register_Cons: "register ((c, p) # E) m = register E (m(c \<mapsto> p))"
  by (simp add: register_def)

lemma register_append: "register (E @ F) m = register F (register E m)"
  by (simp add: register_def)

lemma register_lookup:
  "distinct (map fst E) \<Longrightarrow> (register E Map.empty c = Some p) = ((c, p) \<in> set E)"
  by (simp add: register_def distinct_rev rev_map [symmetric])

lemma add_children_repr:
  assumes "\<forall>t \<in> set ts. addsTree d t"
    and "list_all2 (repr hp) cs ts" and "heap s = hp"
  shows "fst (forEach (\<lambda>c s'. addToComponentsMap d c
            (s'\<lparr>componentsParent :=
               (componentsParent s')(node_id (heap s' ! c) \<mapsto> node_id (heap s' ! a))\<rparr>)) cs s) = None \<and>
     heap (snd (forEach (\<lambda>c s'. addToComponentsMap d c
            (s'\<lparr>componentsParent :=
               (componentsParent s')(node_id (heap s' ! c) \<mapsto> node_id (heap s' ! a))\<rparr>)) cs s)) = hp \<and>
     rootInstances (snd (forEach (\<lambda>c s'. addToComponentsMap d c
            (s'\<lparr>componentsParent :=
               (componentsParent s')(node_id (heap s' ! c) \<mapsto> node_id (heap s' ! a))\<rparr>)) cs s)) = rootInstances s \<and>
     componentsParent (snd (forEach (\<lambda>c s'. addToComponentsMap d c
            (s'\<lparr>componentsParent :=
               (componentsParent s')(node_id (heap s' ! c) \<mapsto> node_id (heap s' ! a))\<rparr>)) cs s)) =
       register (concat (map (\<lambda>c. (jid c, node_id (hp ! a)) # edges c) ts)) (componentsParent s)"
  using assms(2, 3, 1)
proof (induction cs ts arbitrary: s rule: list_all2_induct)
  case Nil
  then show ?case by (simp add: register_Nil)
next
  case (Cons c cs t ts)
  let ?s0 = "s\<lparr>componentsParent :=
       (componentsParent s)(node_id (heap s ! c) \<mapsto> node_id (heap s ! a))\<rparr>"
  let ?r = "addToComponentsMap d c ?s0"
  have rc: "repr (heap ?s0) c t" using Cons.hyps(1) Cons.prems(1) by simp
  have "addsTree d t" using Cons.prems(2) by simp
  with rc have one: "fst ?r = None" "heap (snd ?r) = heap ?s0"
    "rootInstances (snd ?r) = rootInstances ?s0"
    "componentsParent (snd ?r) = register (edges t) (componentsParent ?s0)"
    unfolding addsTree_def by blast+
  obtain s1 where s1: "?r = (None, s1)" using one(1) by (cases ?r) simp
  have rest: "heap s1 = hp" using Cons.prems(1) one(2) s1 by simp
  have ih: "\<forall>t \<in> set ts. addsTree d t" using Cons.prems(2) by simp
  note IH = Cons.IH [of s1, OF rest ih]
  have idc: "node_id (heap s ! c) = jid t" using Cons.hyps(1) Cons.prems(1) repr_id by simp
  have cp: "componentsParent s1 =
      register (edges t) ((componentsParent s)(jid t \<mapsto> node_id (hp ! a)))"
    using one(4) s1 idc Cons.prems(1) by simp
  have r1: "rootInstances s1 = rootInstances s" using one(3) s1 by simp
  let ?F = "\<lambda>c s'. addToComponentsMap d c
            (s'\<lparr>componentsParent :=
               (componentsParent s')(node_id (heap s' ! c) \<mapsto> node_id (heap s' ! a))\<rparr>)"
  have step: "forEach ?F (c # cs) s = forEach ?F cs s1"
    by (simp only: forEach.simps s1 prod.case option.case)
  have reg: "register (concat (map (\<lambda>c. (jid c, node_id (hp ! a)) # edges c) (t # ts))) (componentsParent s) =
      register (concat (map (\<lambda>c. (jid c, node_id (hp ! a)) # edges c) ts)) (componentsParent s1)"
    by (simp add: register_Cons register_append cp)
  show ?case
    using IH by (simp only: step reg r1) 
qed

lemma addsTree_all: "depth t \<le> d \<Longrightarrow> addsTree d t"
proof (induction t arbitrary: d)
  case (JNode i h cs m)
  then obtain d' where d: "d = Suc d'" and le: "foldr max (map depth cs) 0 \<le> d'"
    by (cases d) simp_all
  have kids: "\<forall>t \<in> set cs. addsTree d' t"
    using JNode.IH depth_child le by (meson le_trans)
  show ?case
    unfolding addsTree_def
  proof (intro allI impI)
    fix a :: addr and s :: state
    assume r: "repr (heap s) a (JNode i h cs m)"
    let ?s1 = "s\<lparr>componentsMap := (componentsMap s)(node_id (heap s ! a) \<mapsto> a)\<rparr>"
    let ?F = "\<lambda>c s'. addToComponentsMap d' c
            (s'\<lparr>componentsParent :=
               (componentsParent s')(node_id (heap s' ! c) \<mapsto> node_id (heap s' ! a))\<rparr>)"
    have l: "list_all2 (repr (heap s)) (children (heap s ! a)) cs" and i: "node_id (heap s ! a) = i"
      using r by simp_all
    have hs: "heap ?s1 = heap s" by simp
    have unfold: "addToComponentsMap d a s = forEach ?F (children (heap s ! a)) ?s1"
      unfolding d by (simp only: addToComponentsMap.simps)
    have e: "edges (JNode i h cs m) = concat (map (\<lambda>c. (jid c, node_id (heap s ! a)) # edges c) cs)"
      using i by simp
    have f: "rootInstances ?s1 = rootInstances s" "componentsParent ?s1 = componentsParent s"
      by simp_all
    from add_children_repr [OF kids l hs, of a]
    show "fst (addToComponentsMap d a s) = None \<and>
        heap (snd (addToComponentsMap d a s)) = heap s \<and>
        rootInstances (snd (addToComponentsMap d a s)) = rootInstances s \<and>
        componentsParent (snd (addToComponentsMap d a s)) =
          register (edges (JNode i h cs m)) (componentsParent s)"
      by (simp only: unfold e f)
  qed
qed

lemma add_roots_repr:
  assumes "\<forall>t \<in> set ts. depth t \<le> d"
    and "list_all2 (repr hp) as ts" and "heap s = hp"
  shows "fst (forEach (addToComponentsMap d) as s) = None \<and>
     heap (snd (forEach (addToComponentsMap d) as s)) = hp \<and>
     rootInstances (snd (forEach (addToComponentsMap d) as s)) = rootInstances s \<and>
     componentsParent (snd (forEach (addToComponentsMap d) as s)) =
       register (concat (map edges ts)) (componentsParent s)"
  using assms(2, 3, 1)
proof (induction as ts arbitrary: s rule: list_all2_induct)
  case Nil
  then show ?case by (simp add: register_Nil)
next
  case (Cons a as t ts)
  let ?r = "addToComponentsMap d a s"
  have "addsTree d t" using Cons.prems(2) addsTree_all by simp
  moreover have "repr (heap s) a t" using Cons.hyps(1) Cons.prems(1) by simp
  ultimately have one: "fst ?r = None" "heap (snd ?r) = heap s"
    "rootInstances (snd ?r) = rootInstances s"
    "componentsParent (snd ?r) = register (edges t) (componentsParent s)"
    unfolding addsTree_def by blast+
  obtain s1 where s1: "?r = (None, s1)" using one(1) by (cases ?r) simp
  have rest: "heap s1 = hp" using Cons.prems(1) one(2) s1 by simp
  have ih: "\<forall>t \<in> set ts. depth t \<le> d" using Cons.prems(2) by simp
  note IH = Cons.IH [of s1, OF rest ih]
  have step: "forEach (addToComponentsMap d) (a # as) s = forEach (addToComponentsMap d) as s1"
    by (simp only: forEach.simps s1 prod.case option.case)
  have cp: "componentsParent s1 = register (edges t) (componentsParent s)"
    and r1: "rootInstances s1 = rootInstances s" using one s1 by simp_all
  have reg: "register (concat (map edges (t # ts))) (componentsParent s) =
      register (concat (map edges ts)) (componentsParent s1)"
    by (simp add: register_append cp)
  show ?case
    using IH by (simp only: step reg r1)
qed

lemma reachable_repr:
  assumes "list_all2 (repr (heap s)) (rootInstances s) ts" and "reachable s p"
  shows "\<exists>t \<in> set ts. \<exists>v \<in> set (nodes t). repr (heap s) p v"
  using assms(2)
proof (induction rule: reachable.induct)
  case (root a)
  then show ?case using assms(1) repr_root nodes_self by blast
next
  case (child p c)
  then obtain t v where t: "t \<in> set ts" and v: "v \<in> set (nodes t)" and r: "repr (heap s) p v"
    by blast
  from repr_child [OF r child.hyps(2)] obtain u where "u \<in> set (jchildren v)" "repr (heap s) c u"
    by blast
  then show ?case using t v nodes_child by blast
qed

lemma reachable_child_edge:
  assumes "list_all2 (repr (heap s)) (rootInstances s) ts" and "reachable s p"
    and "c \<in> set (children (heap s ! p))"
  shows "(node_id (heap s ! c), node_id (heap s ! p)) \<in> set (concat (map edges ts))"
proof -
  from reachable_repr [OF assms(1, 2)] obtain t v where
    t: "t \<in> set ts" and v: "v \<in> set (nodes t)" and r: "repr (heap s) p v" by blast
  from repr_child [OF r assms(3)] obtain u where u: "u \<in> set (jchildren v)"
    and ru: "repr (heap s) c u" by blast
  have "(jid u, jid v) \<in> set (edges t)" using v u by (rule edges_child)
  then show ?thesis using t repr_id [OF r] repr_id [OF ru] by auto
qed

lemma forest_consistent:
  assumes r: "list_all2 (repr (heap s)) (rootInstances s) ts"
    and d: "distinct (concat (map allIds ts))"
    and p: "componentsParent s = register (concat (map edges ts)) Map.empty"
  shows "parentConsistent s"
  unfolding parentConsistent_def
proof (intro allI impI)
  fix c pid
  assume rc: "reachable s c"
  let ?E = "concat (map edges ts)"
  from forest_distinct [OF d] have dk: "distinct (map fst ?E)"
    and tops: "\<forall>t \<in> set ts. jid t \<notin> fst ` set ?E" by simp_all
  have look: "\<And>k v. (componentsParent s k = Some v) = ((k, v) \<in> set ?E)"
    unfolding p using dk by (rule register_lookup)
  show "(componentsParent s (node_id (heap s ! c)) = Some pid) =
      (\<exists>p. reachable s p \<and> c \<in> set (children (heap s ! p)) \<and> node_id (heap s ! p) = pid)"
  proof
    assume "componentsParent s (node_id (heap s ! c)) = Some pid"
    then have e: "(node_id (heap s ! c), pid) \<in> set ?E" by (simp only: look)
    from rc show "\<exists>p. reachable s p \<and> c \<in> set (children (heap s ! p)) \<and> node_id (heap s ! p) = pid"
    proof (cases rule: reachable.cases)
      case root
      then obtain t where "t \<in> set ts" "repr (heap s) c t" using r repr_root by blast
      then have "node_id (heap s ! c) \<notin> fst ` set ?E" using tops repr_id by metis
      then show ?thesis using e by force
    next
      case (child q)
      have "(node_id (heap s ! c), node_id (heap s ! q)) \<in> set ?E"
        using r child by (rule reachable_child_edge)
      then have "node_id (heap s ! q) = pid" using e dk by (meson eq_key_imp_eq_value)
      then show ?thesis using child by blast
    qed
  next
    assume "\<exists>p. reachable s p \<and> c \<in> set (children (heap s ! p)) \<and> node_id (heap s ! p) = pid"
    then obtain q where q: "reachable s q" "c \<in> set (children (heap s ! q))"
      "node_id (heap s ! q) = pid" by blast
    have "(node_id (heap s ! c), node_id (heap s ! q)) \<in> set ?E"
      using r q(1, 2) by (rule reachable_child_edge)
    then show "componentsParent s (node_id (heap s ! c)) = Some pid"
      using q(3) by (simp only: look)
  qed
qed

lemma forest_roots_no_entry:
  assumes r: "list_all2 (repr (heap s)) (rootInstances s) ts"
    and d: "distinct (concat (map allIds ts))"
    and p: "componentsParent s = register (concat (map edges ts)) Map.empty"
  shows "\<forall>a \<in> set (rootInstances s). componentsParent s (node_id (heap s ! a)) = None"
proof
  fix a
  assume "a \<in> set (rootInstances s)"
  then obtain t where t: "t \<in> set ts" and ra: "repr (heap s) a t" using r repr_root by blast
  let ?E = "concat (map edges ts)"
  from forest_distinct [OF d] t have dk: "distinct (map fst ?E)"
    and top: "jid t \<notin> fst ` set ?E" by simp_all
  have "register ?E Map.empty (jid t) = None"
  proof (cases "register ?E Map.empty (jid t)")
    case None
    then show ?thesis .
  next
    case (Some v)
    then have "(jid t, v) \<in> set ?E" by (simp only: register_lookup [OF dk])
    then have "fst (jid t, v) \<in> fst ` set ?E" by (rule imageI)
    then show ?thesis using top by simp
  qed
  then show "componentsParent s (node_id (heap s ! a)) = None"
    by (simp only: repr_id [OF ra] p)
qed

lemma add_parent_dom:
  "dom (componentsParent s) \<subseteq> dom (componentsParent (snd (addToComponentsMap d x s)))"
proof (induction d arbitrary: x s)
  case 0
  then show ?case by simp
next
  case (Suc d)
  let ?s1 = "s\<lparr>componentsMap := (componentsMap s)(node_id (heap s ! x) \<mapsto> x)\<rparr>"
  let ?F = "\<lambda>c s'. addToComponentsMap d c
          (s'\<lparr>componentsParent :=
             (componentsParent s')(node_id (heap s' ! c) \<mapsto> node_id (heap s' ! x))\<rparr>)"
  let ?R = "\<lambda>s s'. dom (componentsParent s) \<subseteq> dom (componentsParent s')"
  have step: "\<And>c s'. ?R s' (snd (?F c s'))"
  proof -
    fix c :: addr and s' :: state
    let ?s0 = "s'\<lparr>componentsParent :=
             (componentsParent s')(node_id (heap s' ! c) \<mapsto> node_id (heap s' ! x))\<rparr>"
    have "?R s' ?s0" by auto
    moreover have "?R ?s0 (snd (addToComponentsMap d c ?s0))" by (rule Suc.IH)
    ultimately show "?R s' (snd (?F c s'))" by (rule subset_trans)
  qed
  have "?R ?s1 (snd (forEach ?F (children (heap s ! x)) ?s1))"
    by (rule forEach_rel [where R = ?R]) (rule step, rule subset_refl, erule subset_trans, assumption)
  then show ?case by (simp only: addToComponentsMap.simps) simp
qed

lemma mergeItem_parent_dom:
  "dom (componentsParent s) \<subseteq> dom (componentsParent (snd (mergeItem stack item s)))"
proof (cases "updateComponentsMapData (restoreChildrenFromComponentsMap s item) s")
  case (Pair r s')
  have same: "componentsParent s' = componentsParent s"
    using Pair by (auto simp add: updateComponentsMapData_def split: option.splits prod.splits)
  show ?thesis
  proof (cases r)
    case (Inl e)
    then show ?thesis using Pair same by (simp add: mergeItem_def)
  next
    case (Inr comp)
    then show ?thesis
      using Pair same add_parent_dom [of s' stack comp] by (simp add: mergeItem_def)
  qed
qed

lemma handler_parent_dom:
  assumes "\<not> resetComponentsQueued s"
  shows "dom (componentsParent s) \<subseteq>
     dom (componentsParent (snd (handleComponentTree parse stack t td nf s)))"
proof -
  let ?R = "\<lambda>s s'. dom (componentsParent s) \<subseteq> dom (componentsParent s')"
  have known: "\<And>items. ?R s (snd (forEach (mergeItem stack) items s))"
    by (rule forEach_rel [where R = ?R])
      (rule mergeItem_parent_dom, rule subset_refl, erule subset_trans, assumption)
  have unknown: "\<And>as hp. ?R s (snd (forEach (addToComponentsMap stack) as
      (s\<lparr>heap := hp, rootInstances := as\<rparr>)))"
  proof -
    fix as hp
    have "?R (s\<lparr>heap := hp, rootInstances := as\<rparr>) (snd (forEach (addToComponentsMap stack) as
      (s\<lparr>heap := hp, rootInstances := as\<rparr>)))"
      by (rule forEach_rel [where R = ?R])
        (rule add_parent_dom, rule subset_refl, erule subset_trans, assumption)
    then show "?R s (snd (forEach (addToComponentsMap stack) as
      (s\<lparr>heap := hp, rootInstances := as\<rparr>)))" by simp
  qed
  have fin: "\<And>r. ?R s (snd r) \<Longrightarrow>
      ?R s (snd (case r of (Some e, s2) \<Rightarrow> (Some e, s2)
        | (None, s2) \<Rightarrow> (None,
            if endsWith t ''root'' \<and> \<not> falsy (selectedComponentId s2)
                 \<and> selectedComponentData s2 = None \<and> falsy (selectedComponentPendingId s2)
            then loadComponent (selectedComponentId s2) s2 else s2)))"
    by (auto simp add: loadComponent_def split: prod.split option.split)
  show ?thesis
  proof (cases "falsy td")
    case True
    then show ?thesis using assms by (simp add: handleComponentTree_def Let_def)
  next
    case False
    show ?thesis
    proof (cases "parse (the td)")
      case None
      then show ?thesis using False assms by (simp add: handleComponentTree_def Let_def)
    next
      case (Some dat)
      show ?thesis
      proof (cases dat)
        case (Array items)
        show ?thesis
        proof (cases "componentsMap s t")
          case None
          obtain as hp where al: "allocList (map ofJson items) (heap s) = (as, hp)"
            by (cases "allocList (map ofJson items) (heap s)")
          show ?thesis
            using False Some Array None al assms fin [OF unknown [of as hp]]
            by (simp add: handleComponentTree_def Let_def)
        next
          case (Some inst)
          show ?thesis
            using False \<open>parse (the td) = Some dat\<close> Array Some assms fin [OF known [of items]]
            by (simp add: handleComponentTree_def Let_def)
        qed
      next
        case (Object x)
        show ?thesis
          using False Some Object assms fin [of "(None, s)"]
          by (cases "componentsMap s t") (simp_all add: handleComponentTree_def Let_def)
      qed
    qed
  qed
qed

lemma below_cases:
  "below hp x p \<Longrightarrow> p = x \<or> (\<exists>c \<in> set (children (hp ! x)). below hp c p)"
proof (induction rule: below.induct)
  case self
  then show ?case by simp
next
  case (step p c)
  from step.IH show ?case
  proof
    assume "p = x"
    then show ?thesis using step.hyps(2) below.self by blast
  next
    assume "\<exists>c0 \<in> set (children (hp ! x)). below hp c0 p"
    then show ?thesis using step.hyps(2) below.step by blast
  qed
qed

lemma links_child: "c \<in> set (children (hp ! x)) \<Longrightarrow> links hp c \<subseteq> links hp x"
  unfolding links_def using below_child by blast

lemma links_own: "c \<in> set (children (hp ! x)) \<Longrightarrow> (node_id (hp ! c), node_id (hp ! x)) \<in> links hp x"
  unfolding links_def using below.self by blast

lemma links_unfold:
  "links hp x \<subseteq>
     {(node_id (hp ! c), node_id (hp ! x)) | c. c \<in> set (children (hp ! x))} \<union>
     (\<Union>c \<in> set (children (hp ! x)). links hp c)"
proof
  fix e
  assume "e \<in> links hp x"
  then obtain p c where e: "e = (node_id (hp ! c), node_id (hp ! p))"
    and b: "below hp x p" and c: "c \<in> set (children (hp ! p))"
    unfolding links_def by blast
  from below_cases [OF b] show "e \<in> {(node_id (hp ! c), node_id (hp ! x)) | c. c \<in> set (children (hp ! x))} \<union>
     (\<Union>c \<in> set (children (hp ! x)). links hp c)"
  proof
    assume "p = x"
    then show ?thesis using e c by blast
  next
    assume "\<exists>c0 \<in> set (children (hp ! x)). below hp c0 p"
    then obtain c0 where "c0 \<in> set (children (hp ! x))" "below hp c0 p" by blast
    then have "e \<in> links hp c0" unfolding links_def using e c by blast
    then show ?thesis using \<open>c0 \<in> set (children (hp ! x))\<close> by blast
  qed
qed

lemma wrote_refl: "wrote L s s"
  by (simp add: wrote_def)

lemma wrote_trans: "wrote L s s' \<Longrightarrow> wrote L s' s'' \<Longrightarrow> wrote L s s''"
  unfolding wrote_def by (metis subset_trans)

lemma wrote_mono: "wrote L s s' \<Longrightarrow> L \<subseteq> M \<Longrightarrow> wrote M s s'"
  unfolding wrote_def by blast

lemma covered_wrote: "covered L S s \<Longrightarrow> wrote L s s' \<Longrightarrow> covered L S s'"
  unfolding covered_def wrote_def by (fastforce simp add: dom_def subset_iff)

lemma add_wrote: "wrote (links (heap s) x) s (snd (addToComponentsMap d x s))"
proof (induction d arbitrary: x s)
  case 0
  then show ?case by (simp add: wrote_refl)
next
  case (Suc d)
  let ?hp = "heap s"
  let ?L = "links ?hp x"
  let ?s1 = "s\<lparr>componentsMap := (componentsMap s)(node_id (heap s ! x) \<mapsto> x)\<rparr>"
  let ?F = "\<lambda>c s'. addToComponentsMap d c
          (s'\<lparr>componentsParent :=
             (componentsParent s')(node_id (heap s' ! c) \<mapsto> node_id (heap s' ! x))\<rparr>)"
  let ?I = "\<lambda>s'. wrote ?L s s'"
  have first: "?I ?s1" by (simp add: wrote_def)
  have step: "\<And>c s'. c \<in> set (children (?hp ! x)) \<Longrightarrow> ?I s' \<Longrightarrow> ?I (snd (?F c s'))"
  proof -
    fix c :: addr and s' :: state
    assume c: "c \<in> set (children (?hp ! x))" and i: "?I s'"
    from i have hs: "heap s' = ?hp" by (simp add: wrote_def)
    let ?s0 = "s'\<lparr>componentsParent :=
             (componentsParent s')(node_id (heap s' ! c) \<mapsto> node_id (heap s' ! x))\<rparr>"
    have "(node_id (?hp ! c), node_id (?hp ! x)) \<in> ?L" using c by (rule links_own)
    then have a: "wrote ?L s' ?s0" using hs by (auto simp add: wrote_def)
    have "wrote (links (heap ?s0) c) ?s0 (snd (addToComponentsMap d c ?s0))" by (rule Suc.IH)
    moreover have "links (heap ?s0) c \<subseteq> ?L" using c hs links_child by simp
    ultimately have b: "wrote ?L ?s0 (snd (addToComponentsMap d c ?s0))" by (rule wrote_mono)
    from i a have "wrote ?L s ?s0" by (rule wrote_trans)
    then show "?I (snd (?F c s'))" using b by (rule wrote_trans)
  qed
  have "?I (snd (forEach ?F (children (?hp ! x)) ?s1))"
    using step first by (rule forEach_inv)
  then show ?case by (simp only: addToComponentsMap.simps)
qed

lemma covered_subset: "covered L S s \<Longrightarrow> T \<subseteq> S \<Longrightarrow> covered L T s"
  unfolding covered_def by blast

lemma covered_Un: "covered L S s \<Longrightarrow> covered L T s \<Longrightarrow> covered L (S \<union> T) s"
  unfolding covered_def by blast

lemma forEach_None_head: "fst (forEach f (x # xs) s) = None \<Longrightarrow> fst (f x s) = None"
  by (cases "f x s") (auto split: option.splits)

lemma forEach_None_tail:
  "fst (forEach f (x # xs) s) = None \<Longrightarrow> forEach f (x # xs) s = forEach f xs (snd (f x s))"
  by (cases "f x s") (auto split: option.splits)

lemma add_covers:
  "fst (addToComponentsMap d x s) = None \<Longrightarrow>
     covered (links (heap s) x) (links (heap s) x) (snd (addToComponentsMap d x s))"
proof (induction d arbitrary: x s)
  case 0
  then show ?case by simp
next
  case (Suc d)
  let ?hp = "heap s"
  let ?L = "links ?hp x"
  let ?s1 = "s\<lparr>componentsMap := (componentsMap s)(node_id (heap s ! x) \<mapsto> x)\<rparr>"
  let ?F = "\<lambda>c s'. addToComponentsMap d c
          (s'\<lparr>componentsParent :=
             (componentsParent s')(node_id (heap s' ! c) \<mapsto> node_id (heap s' ! x))\<rparr>)"
  have loop: "\<And>cs s' S. set cs \<subseteq> set (children (?hp ! x)) \<Longrightarrow> heap s' = ?hp \<Longrightarrow>
      covered ?L S s' \<Longrightarrow> fst (forEach ?F cs s') = None \<Longrightarrow>
      covered ?L (S \<union> {(node_id (?hp ! c), node_id (?hp ! x)) | c. c \<in> set cs} \<union>
        (\<Union>c \<in> set cs. links ?hp c)) (snd (forEach ?F cs s'))"
  proof -
    fix cs :: "addr list" and s' :: state and S :: "(string \<times> string) set"
    show "set cs \<subseteq> set (children (?hp ! x)) \<Longrightarrow> heap s' = ?hp \<Longrightarrow>
      covered ?L S s' \<Longrightarrow> fst (forEach ?F cs s') = None \<Longrightarrow>
      covered ?L (S \<union> {(node_id (?hp ! c), node_id (?hp ! x)) | c. c \<in> set cs} \<union>
        (\<Union>c \<in> set cs. links ?hp c)) (snd (forEach ?F cs s'))"
    proof (induction cs arbitrary: s' S)
      case Nil
      then show ?case by simp
    next
      case (Cons c cs)
      let ?s0 = "s'\<lparr>componentsParent :=
             (componentsParent s')(node_id (heap s' ! c) \<mapsto> node_id (heap s' ! x))\<rparr>"
      let ?r = "addToComponentsMap d c ?s0"
      have cin: "c \<in> set (children (?hp ! x))" using Cons.prems(1) by simp
      have own: "(node_id (?hp ! c), node_id (?hp ! x)) \<in> ?L" using cin by (rule links_own)
      have sub: "links ?hp c \<subseteq> ?L" using cin by (rule links_child)
      have e: "fst ?r = None" using Cons.prems(4) by (rule forEach_None_head)
      obtain s1 where s1: "s1 = snd ?r" by simp
      have step: "forEach ?F (c # cs) s' = forEach ?F cs s1"
        unfolding s1 using Cons.prems(4) by (rule forEach_None_tail)
      have c0: "covered ?L (S \<union> {(node_id (?hp ! c), node_id (?hp ! x))}) ?s0"
        using Cons.prems(2, 3) own by (auto simp add: covered_def)
      have "wrote (links (heap ?s0) c) ?s0 s1" unfolding s1 by (rule add_wrote)
      moreover have "links (heap ?s0) c \<subseteq> ?L" using sub Cons.prems(2) by simp
      ultimately have w: "wrote ?L ?s0 s1" by (rule wrote_mono)
      have h1: "heap s1 = ?hp" using w Cons.prems(2) by (simp add: wrote_def)
      have c1: "covered ?L (S \<union> {(node_id (?hp ! c), node_id (?hp ! x))}) s1"
        using c0 w by (rule covered_wrote)
      have "covered (links (heap ?s0) c) (links (heap ?s0) c) (snd ?r)"
        using e by (rule Suc.IH)
      then have "covered (links ?hp c) (links ?hp c) s1"
        using Cons.prems(2) by (simp add: s1)
      then have c2: "covered ?L (links ?hp c) s1"
        using sub unfolding covered_def by blast
      have c3: "covered ?L (S \<union> {(node_id (?hp ! c), node_id (?hp ! x))} \<union> links ?hp c) s1"
        using c1 c2 by (rule covered_Un)
      have sub2: "set cs \<subseteq> set (children (?hp ! x))" using Cons.prems(1) by simp
      have n2: "fst (forEach ?F cs s1) = None" using Cons.prems(4) by (simp only: step)
      have "covered ?L (S \<union> {(node_id (?hp ! c), node_id (?hp ! x))} \<union> links ?hp c \<union>
          {(node_id (?hp ! c'), node_id (?hp ! x)) | c'. c' \<in> set cs} \<union>
          (\<Union>c' \<in> set cs. links ?hp c')) (snd (forEach ?F cs s1))"
        using sub2 h1 c3 n2 by (rule Cons.IH)
      moreover have "S \<union> {(node_id (?hp ! c'), node_id (?hp ! x)) | c'. c' \<in> set (c # cs)} \<union>
          (\<Union>c' \<in> set (c # cs). links ?hp c') \<subseteq>
        S \<union> {(node_id (?hp ! c), node_id (?hp ! x))} \<union> links ?hp c \<union>
          {(node_id (?hp ! c'), node_id (?hp ! x)) | c'. c' \<in> set cs} \<union>
          (\<Union>c' \<in> set cs. links ?hp c')"
        by auto
      ultimately show ?case
        unfolding step by (rule covered_subset)
    qed
  qed
  have "fst (forEach ?F (children (?hp ! x)) ?s1) = None"
    using Suc.prems by (simp only: addToComponentsMap.simps)
  from loop [of "children (?hp ! x)" ?s1 "{}"] this
  have "covered ?L ({(node_id (?hp ! c), node_id (?hp ! x)) | c. c \<in> set (children (?hp ! x))} \<union>
        (\<Union>c \<in> set (children (?hp ! x)). links ?hp c)) (snd (forEach ?F (children (?hp ! x)) ?s1))"
    by (simp add: covered_def)
  then have "covered ?L ?L (snd (forEach ?F (children (?hp ! x)) ?s1))"
    using links_unfold [of ?hp x] by (rule covered_subset)
  then show ?case by (simp only: addToComponentsMap.simps)
qed

lemma add_links:
  assumes "fst (addToComponentsMap d x s) = None" and "parentsAgree (heap s) x"
    and "below (heap s) x p" and "c \<in> set (children (heap s ! p))"
  shows "componentsParent (snd (addToComponentsMap d x s)) (node_id (heap s ! c)) =
     Some (node_id (heap s ! p))"
proof -
  have l: "(node_id (heap s ! c), node_id (heap s ! p)) \<in> links (heap s) x"
    unfolding links_def using assms(3, 4) by blast
  from add_covers [OF assms(1)] l obtain v' where
    "(node_id (heap s ! c), v') \<in> links (heap s) x"
    "componentsParent (snd (addToComponentsMap d x s)) (node_id (heap s ! c)) = Some v'"
    unfolding covered_def by blast
  then show ?thesis using assms(2) l unfolding parentsAgree_def by blast
qed

lemma register_lookup_any:
  "distinct (map fst E) \<Longrightarrow> (c, p) \<in> set E \<Longrightarrow> register E m c = Some p"
  by (simp add: register_def map_add_Some_iff distinct_rev rev_map [symmetric])

lemma forest_recorded:
  assumes r: "list_all2 (repr (heap s)) (rootInstances s) ts"
    and d: "distinct (concat (map allIds ts))"
    and p: "componentsParent s = register (concat (map edges ts)) m"
  shows "parentsRecorded s"
  unfolding parentsRecorded_def
proof (intro allI impI)
  fix q c
  assume "reachable s q" and "c \<in> set (children (heap s ! q))"
  with r have "(node_id (heap s ! c), node_id (heap s ! q)) \<in> set (concat (map edges ts))"
    by (rule reachable_child_edge)
  moreover have "distinct (map fst (concat (map edges ts)))"
    using forest_distinct [OF d] by simp
  ultimately show "componentsParent s (node_id (heap s ! c)) = Some (node_id (heap s ! q))"
    unfolding p by (intro register_lookup_any)
qed

lemma root_replacement_result:
  assumes "resetComponentsQueued s \<or> componentsMap s t = None" and "\<not> falsy td"
    and "parse (the td) = Some (Array items)"
    and "\<forall>t \<in> set items. depth t \<le> stack"
  shows "fst (handleComponentTree parse stack t td nf s) = None \<and>
     list_all2 (repr (heap (snd (handleComponentTree parse stack t td nf s))))
       (rootInstances (snd (handleComponentTree parse stack t td nf s))) items \<and>
     componentsParent (snd (handleComponentTree parse stack t td nf s)) =
       register (concat (map edges items))
         (if resetComponentsQueued s then Map.empty else componentsParent s)"
proof -
  let ?s1 = "if resetComponentsQueued s then resetComponents s else s"
  have unknown: "componentsMap ?s1 t = None"
    using assms(1) by (auto simp add: resetComponents_def)
  have cp1: "componentsParent ?s1 = (if resetComponentsQueued s then Map.empty else componentsParent s)"
    by (simp add: resetComponents_def)
  obtain as hp where al: "allocList (map ofJson items) (heap ?s1) = (as, hp)"
    by (cases "allocList (map ofJson items) (heap ?s1)")
  let ?s2 = "?s1\<lparr>heap := hp, rootInstances := as\<rparr>"
  let ?r = "forEach (addToComponentsMap stack) as ?s2"
  from allocList_repr [OF al] have rp: "list_all2 (repr hp) as items" by simp
  have h2: "heap ?s2 = hp" by simp
  from add_roots_repr [OF assms(4) rp h2]
  have ok: "fst ?r = None" and hr: "heap (snd ?r) = hp" and rr: "rootInstances (snd ?r) = as"
    and pr: "componentsParent (snd ?r) = register (concat (map edges items)) (componentsParent ?s1)"
    by simp_all
  obtain s3 where s3: "?r = (None, s3)" using ok by (cases ?r) simp
  let ?s4 = "if endsWith t ''root'' \<and> \<not> falsy (selectedComponentId s3)
       \<and> selectedComponentData s3 = None \<and> falsy (selectedComponentPendingId s3)
     then loadComponent (selectedComponentId s3) s3 else s3"
  have res: "handleComponentTree parse stack t td nf s = (None, ?s4)"
    using assms(2, 3) unknown al s3
    by (simp add: handleComponentTree_def Let_def)
  have f: "heap ?s4 = hp" "rootInstances ?s4 = as"
    "componentsParent ?s4 = register (concat (map edges items)) (componentsParent ?s1)"
    using hr rr pr s3 by (simp_all add: loadComponent_def)
  have l: "list_all2 (repr (heap ?s4)) (rootInstances ?s4) items" using rp f(1, 2) by simp
  show ?thesis
    using l f(3) by (simp only: res fst_conv snd_conv cp1)
qed

lemma add_error: "fst (addToComponentsMap d x s) = Some e \<Longrightarrow> e = RangeError"
proof (induction d arbitrary: x s)
  case 0
  then show ?case by simp
next
  case (Suc d)
  let ?s1 = "s\<lparr>componentsMap := (componentsMap s)(node_id (heap s ! x) \<mapsto> x)\<rparr>"
  let ?F = "\<lambda>c s'. addToComponentsMap d c
          (s'\<lparr>componentsParent :=
             (componentsParent s')(node_id (heap s' ! c) \<mapsto> node_id (heap s' ! x))\<rparr>)"
  have e: "fst (forEach ?F (children (heap s ! x)) ?s1) = Some e"
    using Suc.prems by (simp only: addToComponentsMap.simps)
  show ?case
  proof (rule forEach_error [OF _ e])
    fix c :: addr and s' :: state
    assume "fst (?F c s') = Some e"
    then show "e = RangeError" by (rule Suc.IH)
  qed
qed

lemma mergeItem_error:
  "componentsMap s (jid item) \<noteq> None \<Longrightarrow> fst (mergeItem stack item s) = Some e \<Longrightarrow> e = RangeError"
  by (auto simp add: mergeItem_def updateComponentsMapData_def restore_id add_error
      split: prod.splits simp del: addToComponentsMap.simps)

lemma reach_old:
  assumes wf: "wellFormed s" and x: "x < length (heap s)"
    and h: "heap s2 = (heap s @ ext)[x := X]" and r: "rootInstances s2 = rootInstances s"
    and p: "reachable s2 p"
  shows "\<not> below (heap s2) x p \<longrightarrow> reachable s p \<and> p < length (heap s) \<and> p \<noteq> x"
  using p
proof (induction rule: reachable.induct)
  case (root a)
  show ?case
  proof
    assume nb: "\<not> below (heap s2) x a"
    have "a \<in> set (rootInstances s)" using root r by simp
    then have "reachable s a" and "a < length (heap s)"
      using wf by (auto intro: reachable.root simp add: wellFormed_def)
    moreover have "a \<noteq> x" using nb below.self by blast
    ultimately show "reachable s a \<and> a < length (heap s) \<and> a \<noteq> x" by blast
  qed
next
  case (child q c)
  show ?case
  proof
    assume nb: "\<not> below (heap s2) x c"
    have "\<not> below (heap s2) x q" using nb child.hyps(2) below.step by blast
    then have q: "reachable s q" "q < length (heap s)" "q \<noteq> x" using child.IH by blast+
    have "heap s2 ! q = heap s ! q" using q h by (simp add: nth_append)
    then have c: "c \<in> set (children (heap s ! q))" using child.hyps(2) by simp
    then have "reachable s c" using q(1) by (blast intro: reachable.child)
    moreover have "c < length (heap s)" using wf q(2) c by (simp add: wellFormed_def)
    moreover have "c \<noteq> x" using nb below.self by blast
    ultimately show "reachable s c \<and> c < length (heap s) \<and> c \<noteq> x" by blast
  qed
qed

lemma treeLinks_I:
  "reachable s p \<Longrightarrow> c \<in> set (children (heap s ! p)) \<Longrightarrow>
     (node_id (heap s ! c), node_id (heap s ! p)) \<in> treeLinks s"
  unfolding treeLinks_def by blast

lemma mergeItem_parts:
  assumes wf: "wellFormed s" and x: "componentsMap s (jid item) = Some x"
  obtains ext X where
    "x < length (heap s)" and "node_id X = node_id (heap s ! x)"
    and "mergeItem stack item s =
       addToComponentsMap stack x (s\<lparr>heap := (heap s @ ext)[x := X]\<rparr>)"
proof -
  let ?d = "restoreChildrenFromComponentsMap s item"
  obtain as hp where al: "allocKids (data_children ?d) (heap s) = (as, hp)"
    by (cases "allocKids (data_children ?d) (heap s)")
  from alloc_extends(2) [of "data_children ?d" "heap s"] al obtain ext where
    hp: "hp = heap s @ ext" by auto
  let ?X = "\<lparr>node_id = data_id ?d, hasChildren = data_hasChildren ?d, children = as,
        meta = meta (heap s ! x) ++ data_meta ?d\<rparr>"
  have a: "x < length (heap s)" and "node_id (heap s ! x) = jid item"
    using wf x by (simp_all add: wellFormed_def)
  then have b: "node_id ?X = node_id (heap s ! x)" by (simp add: restore_id)
  have c: "mergeItem stack item s =
       addToComponentsMap stack x (s\<lparr>heap := (heap s @ ext)[x := ?X]\<rparr>)"
    using x al hp by (simp add: mergeItem_def updateComponentsMapData_def restore_id)
  from a b c show thesis by (rule that)
qed

lemma mergeItem_recorded:
  assumes wf: "wellFormed s" and pr: "parentsRecorded s"
    and x: "componentsMap s (jid item) = Some x"
    and ok: "fst (mergeItem stack item s) = None"
    and ag: "treeAgrees (snd (mergeItem stack item s)) x"
  shows "parentsRecorded (snd (mergeItem stack item s))"
proof -
  from wf x obtain ext X where xl: "x < length (heap s)"
    and idX: "node_id X = node_id (heap s ! x)"
    and res: "mergeItem stack item s =
       addToComponentsMap stack x (s\<lparr>heap := (heap s @ ext)[x := X]\<rparr>)"
    by (rule mergeItem_parts)
  let ?H = "(heap s @ ext)[x := X]"
  let ?s' = "s\<lparr>heap := ?H\<rparr>"
  let ?s2 = "snd (addToComponentsMap stack x ?s')"
  have h2: "heap ?s2 = ?H" by (simp add: add_heap del: addToComponentsMap.simps)
  have r2: "rootInstances ?s2 = rootInstances s"
    by (simp add: add_roots del: addToComponentsMap.simps)
  have ok': "fst (addToComponentsMap stack x ?s') = None" using ok res by simp
  have ag': "treeAgrees ?s2 x" using ag res by simp
  have wr: "wrote (links ?H x) ?s' ?s2" using add_wrote [of ?s' x stack] by simp
  have pa: "parentsAgree (heap ?s') x"
    using ag' h2 unfolding treeAgrees_def parentsAgree_def by simp
  have ids: "\<And>c. c < length (heap s) \<Longrightarrow> node_id (?H ! c) = node_id (heap s ! c)"
  proof -
    fix c assume c: "c < length (heap s)"
    show "node_id (?H ! c) = node_id (heap s ! c)"
    proof (cases "c = x")
      case True
      then show ?thesis using xl idX by simp
    next
      case False
      then show ?thesis using c by (simp add: nth_append)
    qed
  qed
  have "parentsRecorded ?s2"
    unfolding parentsRecorded_def
  proof (intro allI impI)
    fix p c
    assume rp: "reachable ?s2 p" and cp: "c \<in> set (children (heap ?s2 ! p))"
    show "componentsParent ?s2 (node_id (heap ?s2 ! c)) = Some (node_id (heap ?s2 ! p))"
    proof (cases "below ?H x p")
      case True
      have b: "below (heap ?s') x p" using True by simp
      have ch: "c \<in> set (children (heap ?s' ! p))" using cp h2 by simp
      from add_links [OF ok' pa b ch] show ?thesis using h2 by simp
    next
      case False
      then have nb: "\<not> below (heap ?s2) x p" using h2 by simp
      from reach_old [OF wf xl h2 r2 rp] nb
      have ro: "reachable s p" and pl: "p < length (heap s)" and px: "p \<noteq> x" by blast+
      have cell: "?H ! p = heap s ! p" using pl px by (simp add: nth_append)
      then have cs: "c \<in> set (children (heap s ! p))" using cp h2 by simp
      then have cl: "c < length (heap s)" using wf pl by (simp add: wellFormed_def)
      let ?k = "node_id (heap s ! c)" and ?v = "node_id (heap s ! p)"
      have old: "componentsParent s ?k = Some ?v"
        using pr ro cs unfolding parentsRecorded_def by blast
      have kH: "node_id (heap ?s2 ! c) = ?k" using ids [OF cl] h2 by simp
      have vH: "node_id (heap ?s2 ! p) = ?v" using cell h2 by simp
      have "?k \<in> dom (componentsParent ?s2)"
        using wr old unfolding wrote_def by auto
      then obtain v2 where v2: "componentsParent ?s2 ?k = Some v2" by blast
      then have "componentsParent ?s' ?k = Some v2 \<or> (?k, v2) \<in> links ?H x"
        using wr unfolding wrote_def by blast
      then have "v2 = ?v"
      proof
        assume "componentsParent ?s' ?k = Some v2"
        then show ?thesis using old by simp
      next
        assume l: "(?k, v2) \<in> links ?H x"
        have "(node_id (heap ?s2 ! c), node_id (heap ?s2 ! p)) \<in> treeLinks ?s2"
          using rp cp by (rule treeLinks_I)
        then have "(?k, ?v) \<in> treeLinks ?s2" by (simp only: kH vH)
        then show ?thesis using l ag' h2 unfolding treeAgrees_def by auto
      qed
      then show ?thesis using v2 kH vH by simp
    qed
  qed
  then show ?thesis using res by simp
qed

lemma mergeItem_frame:
  assumes wf: "wellFormed s" and x: "componentsMap s (jid item) = Some x"
    and k: "k \<notin> fst ` links (heap (snd (mergeItem stack item s))) x"
  shows "componentsParent (snd (mergeItem stack item s)) k = componentsParent s k"
proof -
  from wf x obtain ext X where xl: "x < length (heap s)"
    and res: "mergeItem stack item s =
       addToComponentsMap stack x (s\<lparr>heap := (heap s @ ext)[x := X]\<rparr>)"
    by (rule mergeItem_parts)
  let ?H = "(heap s @ ext)[x := X]"
  let ?s' = "s\<lparr>heap := ?H\<rparr>"
  let ?s2 = "snd (addToComponentsMap stack x ?s')"
  have h2: "heap ?s2 = ?H" by (simp add: add_heap del: addToComponentsMap.simps)
  have wr: "wrote (links ?H x) ?s' ?s2" using add_wrote [of ?s' x stack] by simp
  have nk: "\<And>v. (k, v) \<notin> links ?H x" using k res h2 by force
  have "componentsParent ?s2 k = componentsParent s k"
  proof (cases "componentsParent ?s2 k")
    case None
    then have "k \<notin> dom (componentsParent ?s')" using wr unfolding wrote_def by auto
    then show ?thesis using None by (simp add: domIff)
  next
    case (Some v)
    then have "componentsParent ?s' k = Some v \<or> (k, v) \<in> links ?H x"
      using wr unfolding wrote_def by blast
    then show ?thesis using Some nk by simp
  qed
  then show ?thesis using res by simp
qed

lemma mergeItems_recorded:
  "wellFormed s \<Longrightarrow> parentsRecorded s \<Longrightarrow> agreeing stack items s \<Longrightarrow>
     fst (forEach (mergeItem stack) items s) \<noteq> Some RangeError \<Longrightarrow>
     parentsRecorded (snd (forEach (mergeItem stack) items s))"
proof (induction items arbitrary: s)
  case Nil
  then show ?case by simp
next
  case (Cons item items)
  show ?case
  proof (cases "componentsMap s (jid item)")
    case None
    then show ?thesis using Cons.prems(2) by (simp add: mergeItem_unseen)
  next
    case (Some x)
    obtain r s1 where r: "mergeItem stack item s = (r, s1)" by (cases "mergeItem stack item s")
    show ?thesis
    proof (cases r)
      case None
      have ok: "fst (mergeItem stack item s) = None" using r None by simp
      have ag: "treeAgrees (snd (mergeItem stack item s)) x"
        and rest: "agreeing stack items s1"
        using Cons.prems(3) Some r None by simp_all
      have pr1: "parentsRecorded s1"
        using mergeItem_recorded [OF Cons.prems(1, 2) Some ok ag] r by simp
      have wf1: "wellFormed s1"
        using mergeItem_wellFormed [OF Cons.prems(1), of stack item] r by simp
      have ne: "fst (forEach (mergeItem stack) items s1) \<noteq> Some RangeError"
        using Cons.prems(4) r None by simp
      from Cons.IH [OF wf1 pr1 rest ne] show ?thesis using r None by simp
    next
      case (Some e)
      have "e = RangeError"
        using mergeItem_error [of s item stack e] \<open>componentsMap s (jid item) = Some x\<close> r Some
        by simp
      then show ?thesis using Cons.prems(4) r Some by simp
    qed
  qed
qed

lemma mergeItems_frame:
  "wellFormed s \<Longrightarrow> k \<notin> touched stack items s \<Longrightarrow>
     componentsParent (snd (forEach (mergeItem stack) items s)) k = componentsParent s k"
proof (induction items arbitrary: s)
  case Nil
  then show ?case by simp
next
  case (Cons item items)
  show ?case
  proof (cases "componentsMap s (jid item)")
    case None
    then show ?thesis by (simp add: mergeItem_unseen)
  next
    case (Some x)
    obtain r s1 where r: "mergeItem stack item s = (r, s1)" by (cases "mergeItem stack item s")
    have k1: "k \<notin> fst ` links (heap (snd (mergeItem stack item s))) x"
      using Cons.prems(2) Some by simp
    have one: "componentsParent s1 k = componentsParent s k"
      using mergeItem_frame [OF Cons.prems(1) Some k1] r by simp
    show ?thesis
    proof (cases r)
      case None
      have wf1: "wellFormed s1"
        using mergeItem_wellFormed [OF Cons.prems(1), of stack item] r by simp
      have "k \<notin> touched stack items s1" using Cons.prems(2) Some r None by simp
      from Cons.IH [OF wf1 this] show ?thesis using r None one by simp
    next
      case (Some e)
      then show ?thesis using r one by simp
    qed
  qed
qed

lemma reachable_cong:
  assumes "heap s' = heap s" and "rootInstances s' = rootInstances s" and "reachable s a"
  shows "reachable s' a"
  using assms(3)
proof (induction rule: reachable.induct)
  case (root a)
  then show ?case using assms(2) by (simp add: reachable.root)
next
  case (child p c)
  then show ?case using assms(1) by (auto intro: reachable.child)
qed

lemma parentsRecorded_cong:
  assumes "heap s' = heap s" and "rootInstances s' = rootInstances s"
    and "componentsParent s' = componentsParent s" and "parentsRecorded s"
  shows "parentsRecorded s'"
  unfolding parentsRecorded_def
proof (intro allI impI)
  fix p c
  assume "reachable s' p" and c: "c \<in> set (children (heap s' ! p))"
  then have "reachable s p"
    using reachable_cong [of s s' p] assms(1, 2) by simp
  then show "componentsParent s' (node_id (heap s' ! c)) = Some (node_id (heap s' ! p))"
    using assms c unfolding parentsRecorded_def by simp
qed

lemma no_roots_recorded:
  assumes "rootInstances s = []"
  shows "parentsRecorded s"
proof -
  have "\<And>p. reachable s p \<Longrightarrow> False"
  proof -
    fix p assume "reachable s p"
    then show False by (induction rule: reachable.induct) (simp_all add: assms)
  qed
  then show ?thesis unfolding parentsRecorded_def by blast
qed

lemma known_target_result:
  assumes "\<not> resetComponentsQueued s" and "componentsMap s t \<noteq> None"
    and "\<not> falsy td" and "parse (the td) = Some (Array items)"
  shows "fst (handleComponentTree parse stack t td nf s) = fst (forEach (mergeItem stack) items s) \<and>
     heap (snd (handleComponentTree parse stack t td nf s)) =
       heap (snd (forEach (mergeItem stack) items s)) \<and>
     rootInstances (snd (handleComponentTree parse stack t td nf s)) =
       rootInstances (snd (forEach (mergeItem stack) items s)) \<and>
     componentsParent (snd (handleComponentTree parse stack t td nf s)) =
       componentsParent (snd (forEach (mergeItem stack) items s))"
proof -
  obtain e s2 where r: "forEach (mergeItem stack) items s = (e, s2)"
    by (cases "forEach (mergeItem stack) items s")
  show ?thesis
    using assms r by (cases e) (auto simp add: handleComponentTree_def Let_def loadComponent_def)
qed

lemma known_target_recorded:
  assumes "\<not> resetComponentsQueued s" and "componentsMap s t \<noteq> None"
    and "\<not> falsy td" and "parse (the td) = Some (Array items)"
    and wf: "wellFormed s" and pr: "parentsRecorded s" and ag: "agreeing stack items s"
    and ne: "fst (handleComponentTree parse stack t td nf s) \<noteq> Some RangeError"
  shows "parentsRecorded (snd (handleComponentTree parse stack t td nf s))"
proof -
  note res = known_target_result [of s t td parse items stack nf, OF assms(1, 2, 3, 4)]
  have "fst (forEach (mergeItem stack) items s) \<noteq> Some RangeError" using ne res by simp
  with wf pr ag have "parentsRecorded (snd (forEach (mergeItem stack) items s))"
    by (rule mergeItems_recorded)
  with res show ?thesis by (blast intro: parentsRecorded_cong)
qed

lemma known_target_frame:
  assumes "\<not> resetComponentsQueued s" and "componentsMap s t \<noteq> None"
    and "\<not> falsy td" and "parse (the td) = Some (Array items)"
    and wf: "wellFormed s" and k: "k \<notin> touched stack items s"
  shows "componentsParent (snd (handleComponentTree parse stack t td nf s)) k = componentsParent s k"
  using known_target_result [of s t td parse items stack nf, OF assms(1, 2, 3, 4)] mergeItems_frame [OF wf k]
  by simp

lemma other_message_recorded:
  assumes no: "falsy td \<or> (\<forall>its. parse (the td) \<noteq> Some (Array its))"
    and pr: "parentsRecorded s"
  shows "parentsRecorded (snd (handleComponentTree parse stack t td nf s))"
proof -
  let ?s1 = "if resetComponentsQueued s then resetComponents s else s"
  have p1: "parentsRecorded ?s1"
    using pr by (simp add: no_roots_recorded resetComponents_def)
  have fr: "\<And>s'. heap s' = heap ?s1 \<Longrightarrow> rootInstances s' = rootInstances ?s1 \<Longrightarrow>
      componentsParent s' = componentsParent ?s1 \<Longrightarrow> parentsRecorded s'"
    using p1 by (rule parentsRecorded_cong [rotated 3])
  show ?thesis
  proof (cases "falsy td")
    case True
    show ?thesis
      by (rule fr) (simp_all add: True handleComponentTree_def Let_def)
  next
    case False
    then have na: "\<forall>its. parse (the td) \<noteq> Some (Array its)" using no by simp
    show ?thesis
    proof (cases "parse (the td)")
      case None
      show ?thesis
        by (rule fr) (simp_all add: False None handleComponentTree_def Let_def)
    next
      case (Some dat)
      then obtain o' where dat: "dat = Object o'" using na by (cases dat) simp_all
      show ?thesis
      proof (cases "componentsMap ?s1 t")
        case None
        show ?thesis
          by (rule fr)
            (simp_all add: False Some dat None handleComponentTree_def Let_def loadComponent_def)
      next
        case (Some inst)
        show ?thesis
          by (rule fr)
            (simp_all add: False \<open>parse (the td) = Some dat\<close> dat Some
              handleComponentTree_def Let_def)
      qed
    qed
  qed
qed

lemma treeAgrees_heap:
  assumes wf: "wellFormed s" and x: "x < length (heap s)"
    and ag: "\<forall>p < length (heap s). \<forall>q < length (heap s).
        \<forall>c \<in> set (children (heap s ! p)). \<forall>d \<in> set (children (heap s ! q)).
          node_id (heap s ! c) = node_id (heap s ! d) \<longrightarrow>
          node_id (heap s ! p) = node_id (heap s ! q)"
  shows "treeAgrees s x"
proof -
  have src: "\<And>k v. (k, v) \<in> treeLinks s \<union> links (heap s) x \<Longrightarrow>
      \<exists>p c. p < length (heap s) \<and> c \<in> set (children (heap s ! p)) \<and>
        k = node_id (heap s ! c) \<and> v = node_id (heap s ! p)"
  proof -
    fix k v assume "(k, v) \<in> treeLinks s \<union> links (heap s) x"
    then obtain p c where c: "c \<in> set (children (heap s ! p))"
      and kv: "k = node_id (heap s ! c)" "v = node_id (heap s ! p)"
      and p: "reachable s p \<or> below (heap s) x p"
      unfolding treeLinks_def links_def by blast
    have "p < length (heap s)"
      using p reachable_allocated [OF wf] below_allocated [OF wf x] by blast
    then show "\<exists>p c. p < length (heap s) \<and> c \<in> set (children (heap s ! p)) \<and>
        k = node_id (heap s ! c) \<and> v = node_id (heap s ! p)"
      using c kv by blast
  qed
  show ?thesis
    unfolding treeAgrees_def
  proof (intro allI impI)
    fix k v v'
    assume a: "(k, v) \<in> treeLinks s \<union> links (heap s) x"
      and b: "(k, v') \<in> treeLinks s \<union> links (heap s) x"
    from src [OF a] obtain p c where p: "p < length (heap s)"
      "c \<in> set (children (heap s ! p))" "k = node_id (heap s ! c)" "v = node_id (heap s ! p)"
      by blast
    from src [OF b] obtain q d where q: "q < length (heap s)"
      "d \<in> set (children (heap s ! q))" "k = node_id (heap s ! d)" "v' = node_id (heap s ! q)"
      by blast
    have "node_id (heap s ! c) = node_id (heap s ! d)" using p(3) q(3) by simp
    then show "v = v'" using ag p q by blast
  qed
qed

lemma handler_recorded:
  assumes wf: "wellFormed s" and pr: "parentsRecorded s" and pv: "proviso parse stack t td nf s"
  shows "parentsRecorded (snd (handleComponentTree parse stack t td nf s))"
proof (cases "\<not> falsy td \<and> (\<exists>items. parse (the td) = Some (Array items))")
  case False
  then have "falsy td \<or> (\<forall>its. parse (the td) \<noteq> Some (Array its))" by blast
  then show ?thesis using pr by (rule other_message_recorded)
next
  case True
  then obtain items where td: "\<not> falsy td" and pa: "parse (the td) = Some (Array items)"
    by blast
  show ?thesis
  proof (cases "resetComponentsQueued s \<or> componentsMap s t = None")
    case True
    then have di: "distinct (concat (map allIds items))"
      and de: "\<forall>u \<in> set items. depth u \<le> stack"
      using pv td pa unfolding proviso_def by auto
    from root_replacement_result [of s t td parse items stack nf, OF True td pa de] di
    show ?thesis by (blast intro: forest_recorded)
  next
    case False
    then have q: "\<not> resetComponentsQueued s" and kn: "componentsMap s t \<noteq> None" by blast+
    have ag: "agreeing stack items s"
      and ne: "fst (handleComponentTree parse stack t td nf s) \<noteq> Some RangeError"
      using pv td pa False unfolding proviso_def by auto
    from q kn td pa wf pr ag ne show ?thesis by (rule known_target_recorded)
  qed
qed

lemma handleAll_recorded:
  "wellFormed s \<Longrightarrow> parentsRecorded s \<Longrightarrow> admissible parse stack ms s \<Longrightarrow>
     parentsRecorded (handleAll parse stack ms s)"
proof (induction ms arbitrary: s)
  case Nil
  then show ?case by simp
next
  case (Cons msg ms)
  obtain t td nf where msg: "msg = (t, td, nf)" by (cases msg)
  let ?s' = "snd (handleComponentTree parse stack t td nf s)"
  have pv: "proviso parse stack t td nf s" and rest: "admissible parse stack ms ?s'"
    using Cons.prems(3) msg by simp_all
  have wf: "wellFormed ?s'" using Cons.prems(1) by (rule handleComponentTree_wellFormed)
  have pr: "parentsRecorded ?s'" using Cons.prems(1, 2) pv by (rule handler_recorded)
  from Cons.IH [OF wf pr rest] show ?case using msg by simp
qed

lemma init_recorded: "parentsRecorded init"
  by (rule no_roots_recorded) (simp add: init_def)

lemma handler_cong:
  assumes "falsy td = falsy td'" and "parse (the td) = parse' (the td')"
  shows "handleComponentTree parse stack t td nf s = handleComponentTree parse' stack t td' nf s"
  by (simp only: handleComponentTree_def assms)

text \<open>The proviso on the tree cannot be dropped: where every link of the tree is
  recorded, no id is the child of two nodes with different ids.\<close>

lemma recorded_agrees:
  assumes "parentsRecorded s" and "(k, v) \<in> treeLinks s" and "(k, v') \<in> treeLinks s"
  shows "v = v'"
proof -
  from assms(2) obtain p c where "reachable s p" "c \<in> set (children (heap s ! p))"
    "k = node_id (heap s ! c)" "v = node_id (heap s ! p)"
    unfolding treeLinks_def by blast
  then have a: "componentsParent s k = Some v"
    using assms(1) unfolding parentsRecorded_def by blast
  from assms(3) obtain q d where "reachable s q" "d \<in> set (children (heap s ! q))"
    "k = node_id (heap s ! d)" "v' = node_id (heap s ! q)"
    unfolding treeLinks_def by blast
  then have "componentsParent s k = Some v'"
    using assms(1) unfolding parentsRecorded_def by blast
  with a show ?thesis by simp
qed

text \<open>
  Claim C8, as amended. That every node \<open>C\<close> reachable from the roots whose immediate
  parent is \<open>P\<close> has the id of \<open>P\<close> as its entry in the parent table is kept by every
  tree message, and so along any sequence of them; the converse holds after a reset.
  \<^item> A root-level replacement (the target is not in the node table once the pending reset
    is done) whose incoming nodes have pairwise distinct ids, with a call stack deep
    enough for them, returns normally, and then the table maps the id of every reachable
    \<open>C\<close> to the id of its immediate parent. When a reset was queued the converse holds as
    well: the table maps the id of a reachable \<open>C\<close> to the id of \<open>P\<close> if and only if \<open>P\<close>
    is the immediate parent of \<open>C\<close>, and the roots have no entry.
  \<^item> A known-target update, with any number of incoming nodes, that starts from a
    well-formed state in which every link of the tree is recorded and that does not
    exhaust the call stack, ends in a state in which every link of the tree is recorded,
    provided that after each turn of its loop no id is the child of two nodes with
    different ids (a table with one entry for each id cannot record such a tree).
  \<^item> A known-target update rewrites the entry of an id only if the id is a child below a
    refreshed node right after the turn that refreshed it; every other entry keeps its
    value.
  \<^item> A message without tree data, with data that does not deserialize, or with data that
    is not an array, keeps every link of the tree recorded.
  \<^item> When no reset is queued, a message removes no entry of the parent table, so an
    entry whose link no longer exists stays.
  \<^item> Hence after any sequence of tree messages, each of which meets its proviso in the
    state in which it arrives, every link of the tree is recorded if this was so at the
    start, as it is in the initial state.
\<close>

theorem parent_table_after_merge:
  "(\<not> falsy td \<and> parse (the td) = Some (Array items) \<and>
    distinct (concat (map allIds items)) \<and> (\<forall>u \<in> set items. depth u \<le> stack)
    \<longrightarrow>
      (resetComponentsQueued s \<or> componentsMap s t = None \<longrightarrow>
         fst (handleComponentTree parse stack t td nf s) = None \<and>
         parentsRecorded (snd (handleComponentTree parse stack t td nf s))) \<and>
      (resetComponentsQueued s \<longrightarrow>
         parentConsistent (snd (handleComponentTree parse stack t td nf s)) \<and>
         (\<forall>a \<in> set (rootInstances (snd (handleComponentTree parse stack t td nf s))).
            componentsParent (snd (handleComponentTree parse stack t td nf s))
              (node_id (heap (snd (handleComponentTree parse stack t td nf s)) ! a)) = None))) \<and>
   (\<not> resetComponentsQueued s \<and> componentsMap s t \<noteq> None \<and> \<not> falsy td \<and>
    parse (the td) = Some (Array items) \<and> wellFormed s \<and> parentsRecorded s \<and>
    agreeing stack items s \<and>
    fst (handleComponentTree parse stack t td nf s) \<noteq> Some RangeError
    \<longrightarrow>
      parentsRecorded (snd (handleComponentTree parse stack t td nf s))) \<and>
   (\<not> resetComponentsQueued s \<and> componentsMap s t \<noteq> None \<and> \<not> falsy td \<and>
    parse (the td) = Some (Array items) \<and> wellFormed s \<and> k \<notin> touched stack items s
    \<longrightarrow>
      componentsParent (snd (handleComponentTree parse stack t td nf s)) k =
        componentsParent s k) \<and>
   ((falsy td \<or> (\<forall>its. parse (the td) \<noteq> Some (Array its))) \<and> parentsRecorded s
    \<longrightarrow>
      parentsRecorded (snd (handleComponentTree parse stack t td nf s))) \<and>
   (\<not> resetComponentsQueued s
    \<longrightarrow>
      dom (componentsParent s) \<subseteq>
        dom (componentsParent (snd (handleComponentTree parse stack t td nf s)))) \<and>
   (wellFormed s \<and> parentsRecorded s \<and> admissible parse stack ms s
    \<longrightarrow>
      parentsRecorded (handleAll parse stack ms s))"
proof (intro conjI impI)
  assume h: "\<not> falsy td \<and> parse (the td) = Some (Array items) \<and>
    distinct (concat (map allIds items)) \<and> (\<forall>u \<in> set items. depth u \<le> stack)"
    and u: "resetComponentsQueued s \<or> componentsMap s t = None"
  from h have td: "\<not> falsy td" and pa: "parse (the td) = Some (Array items)"
    and di: "distinct (concat (map allIds items))"
    and de: "\<forall>u \<in> set items. depth u \<le> stack" by blast+
  note r = root_replacement_result [of s t td parse items stack nf, OF u td pa de]
  from r show "fst (handleComponentTree parse stack t td nf s) = None" by blast
  from r di show "parentsRecorded (snd (handleComponentTree parse stack t td nf s))"
    by (blast intro: forest_recorded)
next
  assume h: "\<not> falsy td \<and> parse (the td) = Some (Array items) \<and>
    distinct (concat (map allIds items)) \<and> (\<forall>u \<in> set items. depth u \<le> stack)"
    and q: "resetComponentsQueued s"
  from h have td: "\<not> falsy td" and pa: "parse (the td) = Some (Array items)"
    and di: "distinct (concat (map allIds items))"
    and de: "\<forall>u \<in> set items. depth u \<le> stack" by blast+
  from q have u: "resetComponentsQueued s \<or> componentsMap s t = None" by simp
  from root_replacement_result [of s t td parse items stack nf, OF u td pa de] q
  have l: "list_all2 (repr (heap (snd (handleComponentTree parse stack t td nf s))))
       (rootInstances (snd (handleComponentTree parse stack t td nf s))) items"
    and c: "componentsParent (snd (handleComponentTree parse stack t td nf s)) =
       register (concat (map edges items)) Map.empty" by simp_all
  from l di c show "parentConsistent (snd (handleComponentTree parse stack t td nf s))"
    by (rule forest_consistent)
  from forest_roots_no_entry [OF l di c]
  show "\<forall>a \<in> set (rootInstances (snd (handleComponentTree parse stack t td nf s))).
            componentsParent (snd (handleComponentTree parse stack t td nf s))
              (node_id (heap (snd (handleComponentTree parse stack t td nf s)) ! a)) = None" .
next
  assume h: "\<not> resetComponentsQueued s \<and> componentsMap s t \<noteq> None \<and> \<not> falsy td \<and>
    parse (the td) = Some (Array items) \<and> wellFormed s \<and> parentsRecorded s \<and>
    agreeing stack items s \<and>
    fst (handleComponentTree parse stack t td nf s) \<noteq> Some RangeError"
  then have h1: "\<not> resetComponentsQueued s" and h2: "componentsMap s t \<noteq> None"
    and h3: "\<not> falsy td" and h4: "parse (the td) = Some (Array items)"
    and h5: "wellFormed s" and h6: "parentsRecorded s" and h7: "agreeing stack items s"
    and h8: "fst (handleComponentTree parse stack t td nf s) \<noteq> Some RangeError"
    by blast+
  from h1 h2 h3 h4 h5 h6 h7 h8
  show "parentsRecorded (snd (handleComponentTree parse stack t td nf s))"
    by (rule known_target_recorded)
next
  assume h: "\<not> resetComponentsQueued s \<and> componentsMap s t \<noteq> None \<and> \<not> falsy td \<and>
    parse (the td) = Some (Array items) \<and> wellFormed s \<and> k \<notin> touched stack items s"
  then have h1: "\<not> resetComponentsQueued s" and h2: "componentsMap s t \<noteq> None"
    and h3: "\<not> falsy td" and h4: "parse (the td) = Some (Array items)"
    and h5: "wellFormed s" and h6: "k \<notin> touched stack items s"
    by blast+
  from h1 h2 h3 h4 h5 h6
  show "componentsParent (snd (handleComponentTree parse stack t td nf s)) k =
        componentsParent s k"
    by (rule known_target_frame)
next
  assume h: "(falsy td \<or> (\<forall>its. parse (the td) \<noteq> Some (Array its))) \<and> parentsRecorded s"
  then have h1: "falsy td \<or> (\<forall>its. parse (the td) \<noteq> Some (Array its))"
    and h2: "parentsRecorded s" by blast+
  from h1 h2 show "parentsRecorded (snd (handleComponentTree parse stack t td nf s))"
    by (rule other_message_recorded)
next
  assume "\<not> resetComponentsQueued s"
  then show "dom (componentsParent s) \<subseteq>
        dom (componentsParent (snd (handleComponentTree parse stack t td nf s)))"
    by (rule handler_parent_dom)
next
  assume "wellFormed s \<and> parentsRecorded s \<and> admissible parse stack ms s"
  then have h1: "wellFormed s" and h2: "parentsRecorded s"
    and h3: "admissible parse stack ms s" by blast+
  from h1 h2 h3 show "parentsRecorded (handleAll parse stack ms s)"
    by (rule handleAll_recorded)
qed

theorem parent_table_after_merge_witness:
  "parentConsistent s_filtered \<and>
   parentsRecorded s_filtered \<and>
   componentsParent s_filtered ''3'' = None \<and>
   parentsRecorded (snd (handleComponentTree
      (parseAs (Array [JNode ''4'' True [JNode ''5'' False [] Map.empty] Map.empty]))
      (Suc (Suc 0)) ''1:root'' (Some ''[...]'') False s_filtered)) \<and>
   parentsRecorded s_one \<and>
   parentsRecorded (snd (handleComponentTree
      (parseAs (Array [JNode ''2'' True [JNode ''7'' False [] Map.empty] Map.empty]))
      (Suc (Suc (Suc 0))) ''2'' (Some ''[...]'') False s_one)) \<and>
   componentsParent (snd (handleComponentTree
      (parseAs (Array [JNode ''2'' True [JNode ''7'' False [] Map.empty] Map.empty]))
      (Suc (Suc (Suc 0))) ''2'' (Some ''[...]'') False s_one)) ''7'' = Some ''2'' \<and>
   componentsParent (snd (handleComponentTree
      (parseAs (Array [JNode ''2'' True [JNode ''7'' False [] Map.empty] Map.empty]))
      (Suc (Suc (Suc 0))) ''2'' (Some ''[...]'') False s_one)) ''2'' = Some ''1:root'' \<and>
   parentsRecorded (snd (handleComponentTree parseFail (Suc 0) ''2'' None False s_one)) \<and>
   parentsRecorded (handleAll
      (parseFrom
        [(''[1]'', Array [JNode ''1:root'' True
            [JNode ''2'' True [JNode ''3'' False [] Map.empty] Map.empty] Map.empty]),
         (''[2]'', Array [JNode ''2'' True [JNode ''7'' False [] Map.empty] Map.empty])])
      (Suc (Suc (Suc 0)))
      [(''1:root'', Some ''[1]'', False), (''2'', Some ''[2]'', False)] init) \<and>
   dom (componentsParent s_filtered) \<subseteq>
     dom (componentsParent (snd (handleComponentTree
        (parseAs (Array [JNode ''4'' True [JNode ''5'' False [] Map.empty] Map.empty]))
        (Suc (Suc 0)) ''1:root'' (Some ''[...]'') False s_filtered)))"
proof -
  have a: "parentConsistent s_filtered \<and> parentsRecorded s_filtered \<and>
      (\<forall>a \<in> set (rootInstances s_filtered).
         componentsParent s_filtered (node_id (heap s_filtered ! a)) = None)"
    unfolding s_filtered_def
    using parent_table_after_merge [where td = "Some ''[...]''"
        and parse = "parseAs (Array [JNode ''3'' True [JNode ''4'' False [] Map.empty] Map.empty])"
        and items = "[JNode ''3'' True [JNode ''4'' False [] Map.empty] Map.empty]"
        and stack = "Suc (Suc 0)" and s = "requestComponentTree None init"
        and t = "''1:root''" and nf = False]
    by (simp add: requestComponentTree_def falsy_def parseAs_def Let_def)
  then have a3: "componentsParent s_filtered ''3'' = None"
    by (simp add: s_filtered_vals)
  have b: "parentsRecorded (snd (handleComponentTree
      (parseAs (Array [JNode ''4'' True [JNode ''5'' False [] Map.empty] Map.empty]))
      (Suc (Suc 0)) ''1:root'' (Some ''[...]'') False s_filtered)) \<and>
    dom (componentsParent s_filtered) \<subseteq>
     dom (componentsParent (snd (handleComponentTree
        (parseAs (Array [JNode ''4'' True [JNode ''5'' False [] Map.empty] Map.empty]))
        (Suc (Suc 0)) ''1:root'' (Some ''[...]'') False s_filtered)))"
    using parent_table_after_merge [where td = "Some ''[...]''"
        and parse = "parseAs (Array [JNode ''4'' True [JNode ''5'' False [] Map.empty] Map.empty])"
        and items = "[JNode ''4'' True [JNode ''5'' False [] Map.empty] Map.empty]"
        and stack = "Suc (Suc 0)" and s = s_filtered and t = "''1:root''" and nf = False]
    by (simp add: s_filtered_vals falsy_def parseAs_def)
  have ok: "wellFormed s_one"
    unfolding s_one_def by (rule handleComponentTree_wellFormed) (rule init_wellFormed)
  have p1: "parentsRecorded s_one"
    unfolding s_one_def
    using parent_table_after_merge [where td = "Some ''[...]''"
        and parse = "parseAs (Array [JNode ''1:root'' True
           [JNode ''2'' True [JNode ''3'' False [] Map.empty] Map.empty] Map.empty])"
        and items = "[JNode ''1:root'' True
           [JNode ''2'' True [JNode ''3'' False [] Map.empty] Map.empty] Map.empty]"
        and stack = "Suc (Suc (Suc 0))" and s = init and t = "''1:root''" and nf = False]
    by (simp add: falsy_def parseAs_def init_def)
  let ?item = "JNode ''2'' True [JNode ''7'' False [] Map.empty] Map.empty"
  let ?H = "handleComponentTree (parseAs (Array [?item]))
      (Suc (Suc (Suc 0))) ''2'' (Some ''[...]'') False s_one"
  let ?m = "snd (mergeItem (Suc (Suc (Suc 0))) ?item s_one)"
  let ?hp = "[\<lparr>node_id = ''3'', hasChildren = False, children = [], meta = Map.empty\<rparr>,
      \<lparr>node_id = ''2'', hasChildren = True, children = [3], meta = Map.empty\<rparr>,
      \<lparr>node_id = ''1:root'', hasChildren = True, children = [1], meta = Map.empty\<rparr>,
      \<lparr>node_id = ''7'', hasChildren = False, children = [], meta = Map.empty\<rparr>]"
  have v: "fst ?H = None" "heap (snd ?H) = ?hp" "rootInstances (snd ?H) = [2]"
    by (simp_all add: s_one_vals handleComponentTree_def mergeItem_def updateComponentsMapData_def
        parseAs_def falsy_def endsWith_def numeral_3_eq_3)
  have m: "fst (mergeItem (Suc (Suc (Suc 0))) ?item s_one) = None" "heap ?m = ?hp"
    by (simp_all add: s_one_vals mergeItem_def updateComponentsMapData_def numeral_3_eq_3)
  have wm: "wellFormed ?m" using ok by (rule mergeItem_wellFormed)
  have ta: "treeAgrees ?m 1"
    using wm by (rule treeAgrees_heap) (simp_all add: m(2) All_less_Suc)
  have ag: "agreeing (Suc (Suc (Suc 0))) [?item] s_one"
    using ta by (simp add: s_one_vals)
  have only: "\<And>p. below ?hp 1 p \<Longrightarrow> p = 1 \<or> p = 3"
  proof -
    fix p assume "below ?hp 1 p"
    then show "p = 1 \<or> p = 3" by (induction rule: below.induct) auto
  qed
  have lk: "\<And>k w. (k, w) \<in> links ?hp 1 \<Longrightarrow> k = ''7''"
  proof -
    fix k w
    assume "(k, w) \<in> links ?hp 1"
    then obtain p c where kw: "k = node_id (?hp ! c)"
      and bp: "below ?hp 1 p" and cp: "c \<in> set (children (?hp ! p))"
      unfolding links_def by blast
    from only [OF bp] show "k = ''7''"
    proof
      assume p: "p = 1"
      then have "c = 3" using cp by simp
      then show ?thesis using kw by simp
    next
      assume p: "p = 3"
      then have False using cp by simp
      then show ?thesis ..
    qed
  qed
  have nl: "''2'' \<notin> fst ` links ?hp 1"
  proof
    assume "''2'' \<in> fst ` links ?hp 1"
    then obtain w where "(''2'', w) \<in> links ?hp 1" by force
    from lk [OF this] show False by simp
  qed
  have nt: "''2'' \<notin> touched (Suc (Suc (Suc 0))) [?item] s_one"
    using nl by (simp add: s_one_vals m)
  have c: "parentsRecorded (snd ?H) \<and>
      componentsParent (snd ?H) ''2'' = Some ''1:root''"
    using parent_table_after_merge [where td = "Some ''[...]''"
        and parse = "parseAs (Array [?item])" and items = "[?item]"
        and stack = "Suc (Suc (Suc 0))" and s = s_one and t = "''2''" and nf = False
        and k = "''2''"] ok p1 ag nt v(1)
    by (simp add: s_one_vals falsy_def parseAs_def)
  have r2: "reachable (snd ?H) 2" by (rule reachable.root) (simp add: v(3))
  then have r1: "reachable (snd ?H) 1" by (rule reachable.child) (simp add: v(2))
  have c7: "componentsParent (snd ?H) ''7'' = Some ''2''"
    using c r1 unfolding parentsRecorded_def by (auto simp add: v(2))
  have d: "parentsRecorded (snd (handleComponentTree parseFail (Suc 0) ''2'' None False s_one))"
    using parent_table_after_merge [where td = None and parse = parseFail
        and stack = "Suc 0" and s = s_one and t = "''2''" and nf = False] p1
    by (simp add: falsy_def)
  let ?tree = "JNode ''1:root'' True
      [JNode ''2'' True [JNode ''3'' False [] Map.empty] Map.empty] Map.empty"
  let ?P = "parseFrom [(''[1]'', Array [?tree]), (''[2]'', Array [?item])]"
  have e1: "handleComponentTree ?P (Suc (Suc (Suc 0))) ''1:root'' (Some ''[1]'') False init =
      handleComponentTree (parseAs (Array [?tree])) (Suc (Suc (Suc 0))) ''1:root''
        (Some ''[...]'') False init"
    by (rule handler_cong) (simp_all add: parseFrom_def parseAs_def falsy_def)
  have e2: "handleComponentTree ?P (Suc (Suc (Suc 0))) ''2'' (Some ''[2]'') False s_one = ?H"
    by (rule handler_cong) (simp_all add: parseFrom_def parseAs_def falsy_def)
  have s1: "snd (handleComponentTree ?P (Suc (Suc (Suc 0))) ''1:root'' (Some ''[1]'') False init) =
      s_one"
    unfolding e1 s_one_def ..
  have pv1: "proviso ?P (Suc (Suc (Suc 0))) ''1:root'' (Some ''[1]'') False init"
    by (simp add: proviso_def parseFrom_def falsy_def init_def)
  have pv2: "proviso ?P (Suc (Suc (Suc 0))) ''2'' (Some ''[2]'') False s_one"
    using ag v(1) by (simp add: proviso_def e2 s_one_vals parseFrom_def falsy_def)
  have ad: "admissible ?P (Suc (Suc (Suc 0)))
      [(''1:root'', Some ''[1]'', False), (''2'', Some ''[2]'', False)] init"
    using pv1 pv2 by (simp add: s1)
  have e: "parentsRecorded (handleAll ?P (Suc (Suc (Suc 0)))
      [(''1:root'', Some ''[1]'', False), (''2'', Some ''[2]'', False)] init)"
    using parent_table_after_merge [where s = init and parse = ?P and stack = "Suc (Suc (Suc 0))"
        and ms = "[(''1:root'', Some ''[1]'', False), (''2'', Some ''[2]'', False)]"
        and td = None] ad init_wellFormed init_recorded
    by simp
  show ?thesis using a a3 b p1 c c7 d e by blast
qed

text \<open>
  The claim as first stated gives the equivalence after any sequence of merges, with
  no proviso. Two sequences show what fails.
  \<^item> Two root-level replacements follow each other. The first (a filtered root fetch,
    after a reset) delivers node \<open>3\<close> with its child \<open>4\<close>. The second arrives with no
    reset queued for a target that the table does not hold, and delivers node \<open>4\<close> alone:
    node \<open>4\<close> is now a root, and the parent table still maps it to \<open>3\<close>.
  \<^item> In \<open>s_moved\<close>, reached by a root fetch and a refresh of the root whose nodes have
    pairwise distinct ids, node \<open>2\<close> is in the tree below node \<open>5\<close> and below the root;
    the table maps \<open>2\<close> to the root, so the link from \<open>5\<close> is not recorded.
\<close>

theorem stale_parent_entry_counterexample:
  "\<not> parentConsistent (snd (handleComponentTree
      (parseAs (Array [JNode ''4'' False [] Map.empty]))
      (Suc (Suc 0)) ''1:root'' (Some ''[...]'') False s_filtered)) \<and>
   \<not> parentsRecorded s_moved"
proof -
  let ?s = "snd (handleComponentTree
      (parseAs (Array [JNode ''4'' False [] Map.empty]))
      (Suc (Suc 0)) ''1:root'' (Some ''[...]'') False s_filtered)"
  have v: "rootInstances ?s = [2]" "children (heap ?s ! 2) = []" "node_id (heap ?s ! 2) = ''4''"
    "componentsParent ?s ''4'' = Some ''3''"
    by (simp_all add: handleComponentTree_def parseAs_def falsy_def endsWith_def s_filtered_vals)
  have only: "\<And>p. reachable ?s p \<Longrightarrow> p = 2"
  proof -
    fix p assume "reachable ?s p"
    then show "p = 2" by (induction rule: reachable.induct) (simp_all add: v)
  qed
  have r2: "reachable ?s 2" by (rule reachable.root) (simp add: v)
  have "\<not> (\<exists>p. reachable ?s p \<and> 2 \<in> set (children (heap ?s ! p)) \<and> node_id (heap ?s ! p) = ''3'')"
    using only v(2) by fastforce
  then have one: "\<not> parentConsistent ?s"
    unfolding parentConsistent_def using r2 v(3, 4) by metis
  have "reachable s_moved 2" by (rule reachable.root) (simp add: s_moved_vals)
  then have "reachable s_moved 3" by (rule reachable.child) (simp add: s_moved_vals)
  moreover have "0 \<in> set (children (heap s_moved ! 3))" by (simp add: s_moved_vals)
  moreover have "componentsParent s_moved (node_id (heap s_moved ! 0)) \<noteq>
      Some (node_id (heap s_moved ! 3))" by (simp add: s_moved_vals)
  ultimately have two: "\<not> parentsRecorded s_moved"
    unfolding parentsRecorded_def by blast
  from one two show ?thesis by blast
qed

section \<open>A refresh with an unseen top-level node (C10)\<close>



end
